theory Spec2Isabelle
  imports Complex_Main
begin

section \<open>Values, errors and the consumed game-state interface\<close>

text \<open>
  The searches of \<^verbatim>\<open>my_custom_player.py\<close> compare integers (the mobility
  score, a difference of two \<^verbatim>\<open>len\<close>), the values of \<^verbatim>\<open>state.utility\<close>
  and the two sentinels \<^verbatim>\<open>float("inf")\<close> and \<^verbatim>\<open>float("-inf")\<close>. Python compares
  an \<^verbatim>\<open>int\<close> with a \<^verbatim>\<open>float\<close> exactly, so the values form the integers
  extended by the two infinities, in their numeric order.
\<close>

datatype val = MInf | Fin int | PInf

instantiation val :: linorder
begin

fun less_eq_val :: "val \<Rightarrow> val \<Rightarrow> bool" where
  "less_eq_val MInf y = True"
| "less_eq_val (Fin a) MInf = False"
| "less_eq_val (Fin a) (Fin b) = (a \<le> b)"
| "less_eq_val (Fin a) PInf = True"
| "less_eq_val PInf MInf = False"
| "less_eq_val PInf (Fin b) = False"
| "less_eq_val PInf PInf = True"

definition less_val :: "val \<Rightarrow> val \<Rightarrow> bool" where
  "less_val x y = (x \<le> y \<and> \<not> y \<le> x)"

instance
proof
  fix x y z :: val
  show "(x < y) = (x \<le> y \<and> \<not> y \<le> x)"
    by (simp add: less_val_def)
  show "x \<le> x"
    by (cases x) simp_all
  show "x \<le> y \<Longrightarrow> y \<le> z \<Longrightarrow> x \<le> z"
    by (cases x; cases y; cases z) simp_all
  show "x \<le> y \<Longrightarrow> y \<le> x \<Longrightarrow> x = y"
    by (cases x; cases y) simp_all
  show "x \<le> y \<or> y \<le> x"
    by (cases x; cases y) auto
qed

end

text \<open>The exceptions the modelled code can raise.\<close>

datatype error = ValueError | IndexError | UnboundLocalError | ZeroDivisionError
  | AttributeError

text \<open>
  The game state is an external collaborator: the players only call its methods. The
  interface is a record of these methods, over a type \<open>'s\<close> of states, \<open>'a\<close> of
  actions, \<open>'l\<close> of locations and \<open>'c\<close> of cells; player identifiers are Python
  integers.
\<close>

record ('s, 'a, 'l, 'c) game =
  ply_count :: "'s \<Rightarrow> int"
  actions :: "'s \<Rightarrow> 'a list"
  result :: "'s \<Rightarrow> 'a \<Rightarrow> 's"
  terminal_test :: "'s \<Rightarrow> bool"
  utility :: "'s \<Rightarrow> int \<Rightarrow> val"
  locs :: "'s \<Rightarrow> int \<Rightarrow> 'l"
  liberties :: "'s \<Rightarrow> 'l \<Rightarrow> 'c list"
  player :: "'s \<Rightarrow> int"
  has_liberties :: "'s \<Rightarrow> int \<Rightarrow> bool"

section \<open>Minimax with alpha-beta pruning\<close>

text \<open>\<^verbatim>\<open>MinimaxAlphaBetaPlayer.score\<close>: own liberties minus the opponent's.\<close>

definition score :: "('s, 'a, 'l, 'c) game \<Rightarrow> int \<Rightarrow> 's \<Rightarrow> val" where
  "score G player_id state =
     (let own_loc = locs G state player_id;
          opp_loc = locs G state (1 - player_id);
          own_liberties = liberties G state own_loc;
          opp_liberties = liberties G state opp_loc
      in Fin (int (length own_liberties) - int (length opp_liberties)))"

text \<open>
  The closures \<^verbatim>\<open>min_value\<close> and \<^verbatim>\<open>max_value\<close>. Each \<^verbatim>\<open>for\<close> loop is a
  function of the actions still to visit and of the loop variables \<^verbatim>\<open>value\<close>,
  \<^verbatim>\<open>alpha\<close>, \<^verbatim>\<open>beta\<close>; the \<^verbatim>\<open>return\<close> inside the loop ends it.
\<close>

function min_value :: "('s, 'a, 'l, 'c) game \<Rightarrow> int \<Rightarrow> 's \<Rightarrow> val \<Rightarrow> val \<Rightarrow> int \<Rightarrow> val"
  and min_loop :: "('s, 'a, 'l, 'c) game \<Rightarrow> int \<Rightarrow> 's \<Rightarrow> 'a list \<Rightarrow> val \<Rightarrow> val \<Rightarrow> val \<Rightarrow> int \<Rightarrow> val"
  and max_value :: "('s, 'a, 'l, 'c) game \<Rightarrow> int \<Rightarrow> 's \<Rightarrow> val \<Rightarrow> val \<Rightarrow> int \<Rightarrow> val"
  and max_loop :: "('s, 'a, 'l, 'c) game \<Rightarrow> int \<Rightarrow> 's \<Rightarrow> 'a list \<Rightarrow> val \<Rightarrow> val \<Rightarrow> val \<Rightarrow> int \<Rightarrow> val"
where
  "min_value G pid state alpha beta depth =
     (if terminal_test G state then utility G state pid
      else if depth \<le> 0 then score G pid state
      else min_loop G pid state (actions G state) PInf alpha beta depth)"
| "min_loop G pid state [] value alpha beta depth = value"
| "min_loop G pid state (action # rest) value alpha beta depth =
     (let value' = min value (max_value G pid (result G state action) alpha beta (depth - 1))
      in if value' \<le> alpha then value'
         else min_loop G pid state rest value' alpha (min beta value') depth)"
| "max_value G pid state alpha beta depth =
     (if terminal_test G state then utility G state pid
      else if depth \<le> 0 then score G pid state
      else max_loop G pid state (actions G state) MInf alpha beta depth)"
| "max_loop G pid state [] value alpha beta depth = value"
| "max_loop G pid state (action # rest) value alpha beta depth =
     (let value' = max value (min_value G pid (result G state action) alpha beta (depth - 1))
      in if value' \<ge> beta then value'
         else max_loop G pid state rest value' (max alpha value') beta depth)"
  by pat_completeness auto

termination
  by (relation "measures [
     (\<lambda>x. case x of
        Inl (Inl (G, pid, s, a, b, d)) \<Rightarrow> 2 * nat d
      | Inl (Inr (G, pid, s, as, v, a, b, d)) \<Rightarrow> (if d \<le> 0 then 1 else 2 * nat d - 1)
      | Inr (Inl (G, pid, s, a, b, d)) \<Rightarrow> 2 * nat d
      | Inr (Inr (G, pid, s, as, v, a, b, d)) \<Rightarrow> (if d \<le> 0 then 1 else 2 * nat d - 1)),
     (\<lambda>x. case x of
        Inl (Inl (G, pid, s, a, b, d)) \<Rightarrow> 0
      | Inl (Inr (G, pid, s, as, v, a, b, d)) \<Rightarrow> length as
      | Inr (Inl (G, pid, s, a, b, d)) \<Rightarrow> 0
      | Inr (Inr (G, pid, s, as, v, a, b, d)) \<Rightarrow> length as)]") auto

text \<open>
  Python's \<^verbatim>\<open>max(iterable, key=f)\<close>: \<^verbatim>\<open>ValueError\<close> on an empty iterable;
  otherwise the key of every element is computed once, in order, and an element
  replaces the current best only when its key is strictly greater, so the first
  element with the greatest key is returned. An exception raised by the key
  function ends the call.
\<close>

fun max_key_loop :: "('a \<Rightarrow> error + 'k::linorder) \<Rightarrow> 'a list \<Rightarrow> 'a \<Rightarrow> 'k \<Rightarrow> error + 'a" where
  "max_key_loop key [] best best_key = Inr best"
| "max_key_loop key (x # xs) best best_key =
     (case key x of
        Inl e \<Rightarrow> Inl e
      | Inr k \<Rightarrow> if best_key < k then max_key_loop key xs x k
                else max_key_loop key xs best best_key)"

fun py_max :: "('a \<Rightarrow> error + 'k::linorder) \<Rightarrow> 'a list \<Rightarrow> error + 'a" where
  "py_max key [] = Inl ValueError"
| "py_max key (x # xs) =
     (case key x of Inl e \<Rightarrow> Inl e | Inr k \<Rightarrow> max_key_loop key xs x k)"

text \<open>
  \<^verbatim>\<open>minimax_alpha_beta\<close>: the root picks, with \<^verbatim>\<open>max\<close>, the action whose
  successor has the greatest \<^verbatim>\<open>min_value\<close> in the full window.
\<close>

definition minimax_alpha_beta :: "('s, 'a, 'l, 'c) game \<Rightarrow> int \<Rightarrow> 's \<Rightarrow> int \<Rightarrow> error + 'a" where
  "minimax_alpha_beta G pid state depth =
     py_max (\<lambda>x. Inr (min_value G pid (result G state x) MInf PInf (depth - 1)))
       (actions G state)"

text \<open>
  The reference the pruned search is compared with, written from the specification:
  depth-limited minimax without pruning, over the same tree, with the same
  evaluation at terminal states and at the depth limit, and the same root selection.
\<close>

function unpruned_min_value :: "('s, 'a, 'l, 'c) game \<Rightarrow> int \<Rightarrow> 's \<Rightarrow> int \<Rightarrow> val"
  and unpruned_max_value :: "('s, 'a, 'l, 'c) game \<Rightarrow> int \<Rightarrow> 's \<Rightarrow> int \<Rightarrow> val"
where
  "unpruned_min_value G pid state depth =
     (if terminal_test G state then utility G state pid
      else if depth \<le> 0 then score G pid state
      else foldl min PInf
             (map (\<lambda>a. unpruned_max_value G pid (result G state a) (depth - 1))
                (actions G state)))"
| "unpruned_max_value G pid state depth =
     (if terminal_test G state then utility G state pid
      else if depth \<le> 0 then score G pid state
      else foldl max MInf
             (map (\<lambda>a. unpruned_min_value G pid (result G state a) (depth - 1))
                (actions G state)))"
  by pat_completeness auto
termination
  by (relation "measure (\<lambda>x. case x of
        Inl (G, pid, s, d) \<Rightarrow> nat d
      | Inr (G, pid, s, d) \<Rightarrow> nat d)") auto

definition minimax_unpruned :: "('s, 'a, 'l, 'c) game \<Rightarrow> int \<Rightarrow> 's \<Rightarrow> int \<Rightarrow> error + 'a" where
  "minimax_unpruned G pid state depth =
     py_max (\<lambda>x. Inr (unpruned_min_value G pid (result G state x) (depth - 1)))
       (actions G state)"

section \<open>Monte Carlo tree search\<close>

text \<open>
  The random source: \<^verbatim>\<open>random\<close> is process-global and never runs out, so it is a
  sequence of draws \<open>rng :: nat \<Rightarrow> nat\<close> read at a position that every call to
  \<^verbatim>\<open>random.choice\<close> advances by one. \<^verbatim>\<open>random.choice(seq)\<close> raises
  \<^verbatim>\<open>IndexError\<close> on an empty sequence and otherwise returns \<^verbatim>\<open>seq[i]\<close> for a
  drawn index \<open>i\<close> below \<^verbatim>\<open>len(seq)\<close>.
\<close>

definition choice :: "(nat \<Rightarrow> nat) \<Rightarrow> nat \<Rightarrow> 'a list \<Rightarrow> error + ('a \<times> nat)" where
  "choice rng pos seq =
     (if seq = [] then Inl IndexError
      else Inr (seq ! (rng pos mod length seq), pos + 1))"

text \<open>
  \<^verbatim>\<open>class Node\<close>. The nodes of one search live in a heap, a list of nodes in the
  order of their creation; the address of a node is its index, and \<^verbatim>\<open>children\<close>
  and \<^verbatim>\<open>parent\<close> hold addresses. The rewards added to \<^verbatim>\<open>value\<close> are the
  integers \<open>1\<close> and \<open>-1\<close>, which the float \<^verbatim>\<open>0.0\<close> accumulates exactly, so
  \<^verbatim>\<open>value\<close> is an integer.
\<close>

record ('s, 'a) node =
  visits :: int
  "value" :: int
  state :: 's
  children :: "nat list"
  child_actions :: "'a list"
  parent :: "nat option"

type_synonym ('s, 'a) tree = "('s, 'a) node list"

definition Node :: "'s \<Rightarrow> nat option \<Rightarrow> ('s, 'a) node" where
  "Node st par =
     \<lparr>visits = 1, value = 0, state = st, children = [], child_actions = [], parent = par\<rparr>"

definition add_child :: "('s, 'a) tree \<Rightarrow> nat \<Rightarrow> 's \<Rightarrow> 'a \<Rightarrow> ('s, 'a) tree" where
  "add_child t self child_state action =
     (let child = length t;
          t1 = t @ [Node child_state (Some self)];
          t2 = t1[self := (t1 ! self)\<lparr>children := children (t1 ! self) @ [child]\<rparr>]
      in t2[self := (t2 ! self)\<lparr>child_actions := child_actions (t2 ! self) @ [action]\<rparr>])"

definition update :: "('s, 'a) tree \<Rightarrow> nat \<Rightarrow> int \<Rightarrow> ('s, 'a) tree" where
  "update t self v =
     (let t1 = t[self := (t ! self)\<lparr>value := value (t ! self) + v\<rparr>]
      in t1[self := (t1 ! self)\<lparr>visits := visits (t1 ! self) + 1\<rparr>])"

definition fully_explored :: "('s, 'a, 'l, 'c) game \<Rightarrow> ('s, 'a) tree \<Rightarrow> nat \<Rightarrow> bool" where
  "fully_explored G t self =
     (if length (child_actions (t ! self)) = length (actions G (state (t ! self)))
      then True else False)"

text \<open>
  \<^verbatim>\<open>expand\<close>. The loop leaves \<^verbatim>\<open>new_state\<close> and \<^verbatim>\<open>action\<close> bound at the first
  action that is not in \<^verbatim>\<open>child_action_attempts\<close>; when it ends without
  \<^verbatim>\<open>break\<close>, \<^verbatim>\<open>new_state\<close> was never assigned and the call of
  \<^verbatim>\<open>add_child\<close> raises \<^verbatim>\<open>UnboundLocalError\<close>.
\<close>

fun expand_loop :: "'a list \<Rightarrow> 'a list \<Rightarrow> 'a option" where
  "expand_loop [] child_action_attempts = None"
| "expand_loop (action # rest) child_action_attempts =
     (if action \<notin> set child_action_attempts then Some action
      else expand_loop rest child_action_attempts)"

definition expand :: "('s, 'a, 'l, 'c) game \<Rightarrow> ('s, 'a) tree \<Rightarrow> nat \<Rightarrow> error + (('s, 'a) tree \<times> nat)" where
  "expand G t n =
     (let possible_actions = actions G (state (t ! n));
          child_action_attempts = child_actions (t ! n)
      in case expand_loop possible_actions child_action_attempts of
           None \<Rightarrow> Inl UnboundLocalError
         | Some action \<Rightarrow>
             (let new_state = result G (state (t ! n)) action;
                  t' = add_child t n new_state action
              in Inr (t', last (children (t' ! n)))))"

text \<open>
  \<^verbatim>\<open>exploit\<close> and \<^verbatim>\<open>explore\<close>, with the real numbers standing for the floats.
  Division by zero raises \<^verbatim>\<open>ZeroDivisionError\<close>, \<^verbatim>\<open>math.log\<close> of a number that is
  not positive and \<^verbatim>\<open>math.sqrt\<close> of a negative number raise \<^verbatim>\<open>ValueError\<close>,
  and \<^verbatim>\<open>node.parent.visits\<close> raises \<^verbatim>\<open>AttributeError\<close> at the root.
\<close>

definition exploit :: "('s, 'a) tree \<Rightarrow> nat \<Rightarrow> error + real" where
  "exploit t n =
     (if visits (t ! n) = 0 then Inl ZeroDivisionError
      else Inr (real_of_int (value (t ! n)) / real_of_int (visits (t ! n))))"

definition explore :: "('s, 'a) tree \<Rightarrow> nat \<Rightarrow> error + real" where
  "explore t n =
     (case parent (t ! n) of
        None \<Rightarrow> Inl AttributeError
      | Some p \<Rightarrow>
          if visits (t ! p) \<le> 0 then Inl ValueError
          else if visits (t ! n) = 0 then Inl ZeroDivisionError
          else if 2 * ln (real_of_int (visits (t ! p))) / real_of_int (visits (t ! n)) < 0
            then Inl ValueError
          else Inr (sqrt (2 * ln (real_of_int (visits (t ! p))) / real_of_int (visits (t ! n)))))"

definition uct_key :: "('s, 'a) tree \<Rightarrow> real \<Rightarrow> nat \<Rightarrow> error + real" where
  "uct_key t factor child =
     (case exploit t child of
        Inl e \<Rightarrow> Inl e
      | Inr x \<Rightarrow> (case explore t child of
                    Inl e \<Rightarrow> Inl e
                  | Inr y \<Rightarrow> Inr (x + factor * y)))"

definition best_child :: "('s, 'a) tree \<Rightarrow> nat \<Rightarrow> real \<Rightarrow> error + nat" where
  "best_child t n factor = py_max (uct_key t factor) (children (t ! n))"

text \<open>
  \<^verbatim>\<open>tree_policy\<close>: the \<^verbatim>\<open>while\<close> loop descends through best children; it is a
  partial function, \<open>None\<close> meaning that the loop does not end.
\<close>

partial_function (option) tree_policy ::
  "('s, 'a, 'l, 'c) game \<Rightarrow> ('s, 'a) tree \<Rightarrow> nat \<Rightarrow> (error + (('s, 'a) tree \<times> nat)) option"
where
  "tree_policy G t n =
     (if \<not> terminal_test G (state (t ! n)) then
        (if \<not> fully_explored G t n then Some (expand G t n)
         else (case best_child t n 1 of
                 Inl e \<Rightarrow> Some (Inl e)
               | Inr c \<Rightarrow> tree_policy G t c))
      else Some (Inr (t, n)))"

text \<open>
  \<^verbatim>\<open>rollout_policy\<close>: the playout loop, then the reward. The loop runs until a
  terminal state is met, which the interface does not promise.
\<close>

partial_function (option) rollout_loop ::
  "('s, 'a, 'l, 'c) game \<Rightarrow> (nat \<Rightarrow> nat) \<Rightarrow> nat \<Rightarrow> 's \<Rightarrow> (error + ('s \<times> nat)) option"
where
  "rollout_loop G rng pos st =
     (if \<not> terminal_test G st then
        (case choice rng pos (actions G st) of
           Inl e \<Rightarrow> Some (Inl e)
         | Inr (action, pos') \<Rightarrow> rollout_loop G rng pos' (result G st action))
      else Some (Inr (st, pos)))"

definition rollout_policy ::
  "('s, 'a, 'l, 'c) game \<Rightarrow> (nat \<Rightarrow> nat) \<Rightarrow> nat \<Rightarrow> ('s, 'a) tree \<Rightarrow> nat \<Rightarrow> int
     \<Rightarrow> (error + (int \<times> nat)) option"
where
  "rollout_policy G rng pos t n player_arg =
     (case rollout_loop G rng pos (state (t ! n)) of
        None \<Rightarrow> None
      | Some (Inl e) \<Rightarrow> Some (Inl e)
      | Some (Inr (st, pos')) \<Rightarrow>
          if has_liberties G st (player G (state (t ! n))) then Some (Inr (- 1, pos'))
          else Some (Inr (1, pos')))"

text \<open>
  \<^verbatim>\<open>backprop\<close>: \<^verbatim>\<open>while node\<close> follows the parent references until
  \<^verbatim>\<open>None\<close>.
\<close>

partial_function (option) backprop ::
  "('s, 'a) tree \<Rightarrow> nat option \<Rightarrow> int \<Rightarrow> ('s, 'a) tree option"
where
  "backprop t n v =
     (case n of
        None \<Rightarrow> Some t
      | Some i \<Rightarrow> backprop (update t i v) (parent (update t i v ! i)) (- v))"

text \<open>\<^verbatim>\<open>list.index\<close>, which raises \<^verbatim>\<open>ValueError\<close> when the element is absent.\<close>

fun index_of :: "'a list \<Rightarrow> 'a \<Rightarrow> error + nat" where
  "index_of [] y = Inl ValueError"
| "index_of (x # xs) y =
     (if x = y then Inr 0
      else case index_of xs y of Inl e \<Rightarrow> Inl e | Inr i \<Rightarrow> Inr (Suc i))"

text \<open>
  \<^verbatim>\<open>monte_carlo_uct\<close>. The wall clock is outside the model: \<open>budget\<close> is the
  number of times the test \<^verbatim>\<open>time.time() < timer_end\<close> succeeds. The result holds
  the returned action, the search tree as it is when the function returns, and the
  position of the random source.
\<close>

fun uct_loop ::
  "('s, 'a, 'l, 'c) game \<Rightarrow> (nat \<Rightarrow> nat) \<Rightarrow> nat \<Rightarrow> 's \<Rightarrow> nat \<Rightarrow> ('s, 'a) tree \<Rightarrow> nat
     \<Rightarrow> (error + (('s, 'a) tree \<times> nat)) option"
where
  "uct_loop G rng 0 st0 rootn t pos = Some (Inr (t, pos))"
| "uct_loop G rng (Suc budget) st0 rootn t pos =
     (case tree_policy G t rootn of
        None \<Rightarrow> None
      | Some (Inl e) \<Rightarrow> Some (Inl e)
      | Some (Inr (t1, leaf)) \<Rightarrow>
          (case rollout_policy G rng pos t1 leaf (player G st0) of
             None \<Rightarrow> None
           | Some (Inl e) \<Rightarrow> Some (Inl e)
           | Some (Inr (v, pos1)) \<Rightarrow>
               (case backprop t1 (Some leaf) v of
                  None \<Rightarrow> None
                | Some t2 \<Rightarrow> uct_loop G rng budget st0 rootn t2 pos1)))"

definition monte_carlo_uct ::
  "('s, 'a, 'l, 'c) game \<Rightarrow> (nat \<Rightarrow> nat) \<Rightarrow> nat \<Rightarrow> nat \<Rightarrow> 's
     \<Rightarrow> (error + ('a \<times> ('s, 'a) tree \<times> nat)) option"
where
  "monte_carlo_uct G rng pos budget st0 =
     (let t0 = [Node st0 None]; rootn = 0
      in if terminal_test G (state (t0 ! rootn)) then
           (case choice rng pos (actions G st0) of
              Inl e \<Rightarrow> Some (Inl e)
            | Inr (a, pos') \<Rightarrow> Some (Inr (a, t0, pos')))
         else
           (case uct_loop G rng budget st0 rootn t0 pos of
              None \<Rightarrow> None
            | Some (Inl e) \<Rightarrow> Some (Inl e)
            | Some (Inr (t, pos')) \<Rightarrow>
                (case best_child t rootn 0 of
                   Inl e \<Rightarrow> Some (Inl e)
                 | Inr c \<Rightarrow>
                     (case index_of (children (t ! rootn)) c of
                        Inl e \<Rightarrow> Some (Inl e)
                      | Inr res \<Rightarrow>
                          if res < length (child_actions (t ! rootn))
                          then Some (Inr (child_actions (t ! rootn) ! res, t, pos'))
                          else Some (Inl IndexError)))))"

section \<open>The two players\<close>

text \<open>
  \<^verbatim>\<open>self.queue.put\<close> appends to the sink; the sink is the list of the values put so
  far, the last one being the value the driver reads. A call of \<^verbatim>\<open>get_action\<close>
  yields the sink as the call leaves it and the exception that ended the call, if any.
\<close>

fun put_depths ::
  "('s, 'a, 'l, 'c) game \<Rightarrow> int \<Rightarrow> 's \<Rightarrow> 'a list \<Rightarrow> int list \<Rightarrow> 'a list \<times> error option"
where
  "put_depths G pid st queue [] = (queue, None)"
| "put_depths G pid st queue (depth # depths) =
     (case minimax_alpha_beta G pid st depth of
        Inl e \<Rightarrow> (queue, Some e)
      | Inr a \<Rightarrow> put_depths G pid st (queue @ [a]) depths)"

definition minimax_get_action ::
  "('s, 'a, 'l, 'c) game \<Rightarrow> int \<Rightarrow> (nat \<Rightarrow> nat) \<Rightarrow> nat \<Rightarrow> 'a list \<Rightarrow> 's \<Rightarrow> 'a list \<times> error option"
where
  "minimax_get_action G pid rng pos queue st =
     (if ply_count G st < 2 then
        (case choice rng pos (actions G st) of
           Inl e \<Rightarrow> (queue, Some e)
         | Inr (a, pos') \<Rightarrow> (queue @ [a], None))
      else
        (let depth_limit = 5
         in put_depths G pid st queue [1 ..  depth_limit]))"

definition uct_get_action ::
  "('s, 'a, 'l, 'c) game \<Rightarrow> (nat \<Rightarrow> nat) \<Rightarrow> nat \<Rightarrow> nat \<Rightarrow> 'a list \<Rightarrow> 's
     \<Rightarrow> ('a list \<times> error option) option"
where
  "uct_get_action G rng pos budget queue st =
     (if ply_count G st < 2 then
        (case choice rng pos (actions G st) of
           Inl e \<Rightarrow> Some (queue, Some e)
         | Inr (a, pos') \<Rightarrow> Some (queue @ [a], None))
      else
        (case monte_carlo_uct G rng pos budget st of
           None \<Rightarrow> None
         | Some (Inl e) \<Rightarrow> Some (queue, Some e)
         | Some (Inr (a, t, pos')) \<Rightarrow> Some (queue @ [a], None)))"

section \<open>A small game to run the definitions on\<close>

text \<open>
  A complete binary tree of depth four: state \<open>s\<close> has the successors \<open>2 s + 1\<close>
  and \<open>2 s + 2\<close>, the states from \<open>15\<close> on are terminal, the players alternate,
  and in a terminal state the player to move has no liberties and has lost.
\<close>

definition toy_depth :: "nat \<Rightarrow> int" where
  "toy_depth s = (if s < 1 then 0 else if s < 3 then 1 else if s < 7 then 2
                  else if s < 15 then 3 else 4)"

definition toy :: "(nat, nat, nat \<times> int, unit) game" where
  "toy = \<lparr>ply_count = toy_depth,
          actions = (\<lambda>s. if s < 15 then [0, 1] else []),
          result = (\<lambda>s a. 2 * s + 1 + a),
          terminal_test = (\<lambda>s. 15 \<le> s),
          utility = (\<lambda>s p. if 15 \<le> s then (if p = toy_depth s mod 2 then MInf else PInf)
                            else Fin 0),
          locs = (\<lambda>s p. (s, p)),
          liberties = (\<lambda>s (s', p). replicate (if p = 0 then (s' * 5) mod 7 else (s' * 3) mod 4) ()),
          player = (\<lambda>s. toy_depth s mod 2),
          has_liberties = (\<lambda>s p. s < 15 \<or> p \<noteq> toy_depth s mod 2)\<rparr>"

text \<open>
  The search tree after two rounds of the search from state \<open>3\<close> with all draws
  \<open>0\<close>: both children of the root were expanded and each lost its playout.
\<close>

definition toy_tree :: "(nat, nat) tree" where
  "toy_tree =
     [\<lparr>visits = 3, value = 2, state = 3, children = [1, 2], child_actions = [0, 1],
       parent = None\<rparr>,
      \<lparr>visits = 2, value = - 1, state = 7, children = [], child_actions = [],
       parent = Some 0\<rparr>,
      \<lparr>visits = 2, value = - 1, state = 8, children = [], child_actions = [],
       parent = Some 0\<rparr>]"

section \<open>Notions used in the statements\<close>

text \<open>
  What a search in the window \<open>(a, b)\<close> promises about its result \<open>r\<close>, the true
  value being \<open>v\<close>: a result inside the window is exact, a result at or below \<open>a\<close>
  is an upper bound, a result at or above \<open>b\<close> a lower bound.
\<close>

definition window_sound :: "val \<Rightarrow> val \<Rightarrow> val \<Rightarrow> val \<Rightarrow> bool" where
  "window_sound a b v r =
     ((r \<le> a \<longrightarrow> v \<le> r) \<and> (a < r \<and> r < b \<longrightarrow> r = v) \<and> (b \<le> r \<longrightarrow> r \<le> v))"

text \<open>
  The state a random playout is in after \<open>k\<close> moves, each the legal action at the
  drawn index.
\<close>

fun playout :: "('s, 'a, 'l, 'c) game \<Rightarrow> (nat \<Rightarrow> nat) \<Rightarrow> nat \<Rightarrow> 's \<Rightarrow> nat \<Rightarrow> 's" where
  "playout G rng pos st 0 = st"
| "playout G rng pos st (Suc k) =
     playout G rng (pos + 1)
       (result G st (actions G st ! (rng pos mod length (actions G st)))) k"

text \<open>The node \<open>d\<close> parent references above a node, if there is one.\<close>

fun ancestor :: "('s, 'a) tree \<Rightarrow> nat \<Rightarrow> nat \<Rightarrow> nat option" where
  "ancestor t n 0 = Some n"
| "ancestor t n (Suc d) =
     (case parent (t ! n) of None \<Rightarrow> None | Some p \<Rightarrow> ancestor t p d)"

text \<open>
  Shape of the heap of a search: a parent is created before its children, so every
  parent reference points to a smaller address; the children of a node are distinct
  later nodes that refer back to it, one for each attempted action; and a visit count
  is at least one.
\<close>

definition parents_ordered :: "('s, 'a) tree \<Rightarrow> bool" where
  "parents_ordered t =
     list_all (\<lambda>n. case parent (t ! n) of None \<Rightarrow> True | Some p \<Rightarrow> p < n) [0 ..< length t]"

definition wf_node :: "('s, 'a) tree \<Rightarrow> nat \<Rightarrow> bool" where
  "wf_node t n =
     (1 \<le> visits (t ! n)
      \<and> length (children (t ! n)) = length (child_actions (t ! n))
      \<and> distinct (children (t ! n))
      \<and> list_all (\<lambda>c. n < c \<and> c < length t \<and> parent (t ! c) = Some n) (children (t ! n))
      \<and> (case parent (t ! n) of None \<Rightarrow> True | Some p \<Rightarrow> p < n))"

definition wf_tree :: "('s, 'a) tree \<Rightarrow> bool" where
  "wf_tree t = list_all (wf_node t) [0 ..< length t]"

text \<open>
  The selection formula of the specification: \<open>exploit(n) + c * explore(n)\<close> for a
  child \<open>n\<close> of the node \<open>p\<close>.
\<close>

definition ucb :: "('s, 'a) tree \<Rightarrow> nat \<Rightarrow> real \<Rightarrow> nat \<Rightarrow> real" where
  "ucb t p c n =
     real_of_int (value (t ! n)) / real_of_int (visits (t ! n))
     + c * sqrt (2 * ln (real_of_int (visits (t ! p))) / real_of_int (visits (t ! n)))"

text \<open>
  The attempted actions of every node are pairwise distinct legal actions of the state
  of the node.
\<close>

definition game_tree :: "('s, 'a, 'l, 'c) game \<Rightarrow> ('s, 'a) tree \<Rightarrow> bool" where
  "game_tree G t =
     list_all (\<lambda>n. distinct (child_actions (t ! n))
                  \<and> set (child_actions (t ! n)) \<subseteq> set (actions G (state (t ! n))))
       [0 ..< length t]"

text \<open>
  The returned move \<open>a\<close> is the action recorded for the first child of the root, in
  the order of the child list, with the greatest average value \<open>value / visits\<close>,
  and that child is the one \<^verbatim>\<open>best_child\<close> selects with the weight \<open>0\<close>.
\<close>

definition first_best_average :: "('s, 'a) tree \<Rightarrow> 'a \<Rightarrow> bool" where
  "first_best_average t a =
     (\<exists>pre c post. children (t ! 0) = pre @ c # post \<and> best_child t 0 0 = Inr c
        \<and> a = child_actions (t ! 0) ! length pre
        \<and> (\<forall>y\<in>set pre. real_of_int (value (t ! y)) / real_of_int (visits (t ! y))
                          < real_of_int (value (t ! c)) / real_of_int (visits (t ! c)))
        \<and> (\<forall>y\<in>set post. real_of_int (value (t ! y)) / real_of_int (visits (t ! y))
                          \<le> real_of_int (value (t ! c)) / real_of_int (visits (t ! c))))"

section \<open>Alpha-beta pruning against unpruned minimax\<close>

declare min_value.simps [simp del] max_value.simps [simp del]
declare unpruned_min_value.simps [simp del] unpruned_max_value.simps [simp del]

lemma val_bounds [simp]: "MInf \<le> (x::val)" "(x::val) \<le> PInf"
  by (cases x; simp)+

lemma val_extreme [simp]: "(PInf \<le> x) = (x = PInf)" "(x \<le> MInf) = (x = MInf)"
  by (cases x; simp)+

text \<open>The running value of a loop only moves towards its optimum.\<close>

lemma min_loop_le: "min_loop G pid s as v a b d \<le> v"
proof (induction as arbitrary: v a b)
  case (Cons x xs)
  show ?case
    using Cons.IH [of "min v (max_value G pid (result G s x) a (b::val) (d - 1))" a
        "min b (min v (max_value G pid (result G s x) a b (d - 1)))"]
    by (simp add: Let_def min_le_iff_disj)
qed simp

lemma max_loop_ge: "v \<le> max_loop G pid s as v a b d"
proof (induction as arbitrary: v a b)
  case (Cons x xs)
  show ?case
    using Cons.IH [of "max v (min_value G pid (result G s x) (a::val) b (d - 1))"
        "max a (max v (min_value G pid (result G s x) a b (d - 1)))" b]
    by (simp add: Let_def le_max_iff_disj)
qed simp

lemma foldl_min_start: "foldl min (v::val) xs = min v (foldl min PInf xs)"
proof (induction xs arbitrary: v)
  case (Cons x xs)
  have "foldl min (min v x) xs = min (min v x) (foldl min PInf xs)" by (rule Cons.IH)
  moreover have "foldl min (min PInf x) xs = min (min PInf x) (foldl min PInf xs)" by (rule Cons.IH)
  moreover have "min PInf x = x" by (simp add: min_def)
  ultimately show ?case by (simp add: min.assoc)
qed (simp add: min_def)

lemma foldl_max_start: "foldl max (v::val) xs = max v (foldl max MInf xs)"
proof (induction xs arbitrary: v)
  case (Cons x xs)
  have "foldl max (max v x) xs = max (max v x) (foldl max MInf xs)" by (rule Cons.IH)
  moreover have "foldl max (max MInf x) xs = max (max MInf x) (foldl max MInf xs)" by (rule Cons.IH)
  moreover have "max MInf x = x" by (simp add: max_def)
  ultimately show ?case by (simp add: max.assoc)
qed (simp add: max_def)

text \<open>One turn of each loop, as a fact about the order alone.\<close>

lemma min_turn:
  assumes "a < b" "b \<le> v" "window_sound a b v' r'"
    and "\<not> min v r' \<le> a \<Longrightarrow> window_sound a (min b (min v r')) (min (min v r') m) r"
    and "r \<le> min v r'"
  shows "window_sound a b (min (min v v') m) (if min v r' \<le> a then min v r' else r)"
  using assms unfolding window_sound_def
  by (smt (verit, best) min.absorb1 min.bounded_iff nle_le not_le)

lemma max_turn:
  assumes "a < b" "v \<le> a" "window_sound a b v' r'"
    and "\<not> b \<le> max v r' \<Longrightarrow> window_sound (max a (max v r')) b (max (max v r') m) r"
    and "max v r' \<le> r"
  shows "window_sound a b (max (max v v') m) (if b \<le> max v r' then max v r' else r)"
  using assms unfolding window_sound_def
  by (smt (verit, best) max.absorb1 max.bounded_iff nle_le not_le)

lemma pruned_window_sound:
  shows "a < b \<Longrightarrow> window_sound a b (unpruned_min_value G pid s d) (min_value G pid s a b d)"
  and "a < b \<Longrightarrow> b \<le> v \<Longrightarrow> window_sound a b
        (foldl min v (map (\<lambda>x. unpruned_max_value G pid (result G s x) (d - 1)) as))
        (min_loop G pid s as v a b d)"
  and "a < b \<Longrightarrow> window_sound a b (unpruned_max_value G pid s d) (max_value G pid s a b d)"
  and "a < b \<Longrightarrow> v \<le> a \<Longrightarrow> window_sound a b
        (foldl max v (map (\<lambda>x. unpruned_min_value G pid (result G s x) (d - 1)) as))
        (max_loop G pid s as v a b d)"
proof (induction G pid s a b d and G pid s as v a b d and G pid s a b d and G pid s as v a b d
    rule: min_value_min_loop_max_value_max_loop.induct)
  case (1 G pid state alpha beta depth)
  then show ?case by (auto simp: window_sound_def min_value.simps unpruned_min_value.simps)
next
  case (2 G pid state v alpha beta depth)
  then show ?case by (auto simp: window_sound_def)
next
  case (3 G pid state action rest v alpha beta depth)
  let ?r' = "max_value G pid (result G state action) alpha beta (depth - 1)"
  let ?v' = "unpruned_max_value G pid (result G state action) (depth - 1)"
  let ?ms = "map (\<lambda>x. unpruned_max_value G pid (result G state x) (depth - 1)) rest"
  let ?r = "min_loop G pid state rest (min v ?r') alpha (min beta (min v ?r')) depth"
  have child: "window_sound alpha beta ?v' ?r'"
    using "3.IH"(1) "3.prems"(1) .
  have rest: "window_sound alpha (min beta (min v ?r')) (min (min v ?r') (foldl min PInf ?ms)) ?r"
    if "\<not> min v ?r' \<le> alpha"
  proof -
    from that "3.prems" have "alpha < min beta (min v ?r')"
      by (simp add: not_le)
    moreover have "min beta (min v ?r') \<le> min v ?r'" by (rule min.cobounded2)
    ultimately have "window_sound alpha (min beta (min v ?r')) (foldl min (min v ?r') ?ms) ?r"
      using "3.IH"(2) [OF refl that] by blast
    then show ?thesis by (simp add: foldl_min_start [of "min v ?r'"])
  qed
  have "window_sound alpha beta (min (min v ?v') (foldl min PInf ?ms))
          (if min v ?r' \<le> alpha then min v ?r' else ?r)"
    using "3.prems" child rest min_loop_le by (rule min_turn)
  then show ?case
    by (simp add: Let_def foldl_min_start [of "min v ?v'"])
next
  case (4 G pid state alpha beta depth)
  then show ?case by (auto simp: window_sound_def max_value.simps unpruned_max_value.simps)
next
  case (5 G pid state v alpha beta depth)
  then show ?case by (auto simp: window_sound_def)
next
  case (6 G pid state action rest v alpha beta depth)
  let ?r' = "min_value G pid (result G state action) alpha beta (depth - 1)"
  let ?v' = "unpruned_min_value G pid (result G state action) (depth - 1)"
  let ?ms = "map (\<lambda>x. unpruned_min_value G pid (result G state x) (depth - 1)) rest"
  let ?r = "max_loop G pid state rest (max v ?r') (max alpha (max v ?r')) beta depth"
  have child: "window_sound alpha beta ?v' ?r'"
    using "6.IH"(1) "6.prems"(1) .
  have rest: "window_sound (max alpha (max v ?r')) beta (max (max v ?r') (foldl max MInf ?ms)) ?r"
    if "\<not> beta \<le> max v ?r'"
  proof -
    from that "6.prems" have "max alpha (max v ?r') < beta"
      by (simp add: not_le)
    moreover have "max v ?r' \<le> max alpha (max v ?r')" by (rule max.cobounded2)
    ultimately have "window_sound (max alpha (max v ?r')) beta (foldl max (max v ?r') ?ms) ?r"
      using "6.IH"(2) [OF refl that] by blast
    then show ?thesis by (simp add: foldl_max_start [of "max v ?r'"])
  qed
  have "window_sound alpha beta (max (max v ?v') (foldl max MInf ?ms))
          (if beta \<le> max v ?r' then max v ?r' else ?r)"
    using "6.prems" child rest max_loop_ge by (rule max_turn)
  then show ?case
    by (simp add: Let_def foldl_max_start [of "max v ?v'"])
qed

lemma min_value_full_window:
  "min_value G pid s MInf PInf d = unpruned_min_value G pid s d"
proof -
  have "window_sound MInf PInf (unpruned_min_value G pid s d) (min_value G pid s MInf PInf d)"
    by (rule pruned_window_sound(1)) (simp add: less_val_def)
  then show ?thesis
    by (cases "min_value G pid s MInf PInf d") (auto simp: window_sound_def less_val_def)
qed

text \<open>
  C1. At every state and every depth limit, \<^verbatim>\<open>minimax_alpha_beta\<close> returns what
  depth-limited minimax without pruning returns, with the same evaluation and the same
  first-occurrence choice among the actions: the same action, or the same exception
  when there is no action; and the value the pruned search computes for each successor
  of the root is its unpruned minimax value.
\<close>

theorem alpha_beta_equals_unpruned:
  "minimax_alpha_beta G pid st depth = minimax_unpruned G pid st depth
   \<and> min_value G pid (result G st x) MInf PInf (depth - 1)
       = unpruned_min_value G pid (result G st x) (depth - 1)"
  by (simp add: minimax_alpha_beta_def minimax_unpruned_def min_value_full_window)

theorem alpha_beta_equals_unpruned_witness:
  "minimax_unpruned toy 0 0 3 = Inr 0
   \<and> unpruned_min_value toy 0 (result toy 0 1) (3 - 1) = Fin (- 1)"
proof -
  have "minimax_alpha_beta toy 0 0 3 = Inr 0"
    by code_simp
  moreover have "min_value toy 0 (result toy 0 1) MInf PInf (3 - 1) = Fin (- 1)"
    by code_simp
  ultimately show ?thesis
    using alpha_beta_equals_unpruned [of toy 0 0 3 1] by simp
qed

section \<open>The root selection and the opening policy\<close>

text \<open>
  \<^verbatim>\<open>max\<close> with total keys returns the first element whose key is greatest: the
  elements before it have strictly smaller keys, the elements after it keys that are
  not greater.
\<close>

lemma max_key_loop_first:
  assumes "\<forall>x\<in>set xs. key x = Inr (f x)"
  shows "\<exists>pre r post. best # xs = pre @ r # post
           \<and> max_key_loop key xs best (f best) = Inr r
           \<and> (\<forall>y\<in>set pre. f y < f r) \<and> (\<forall>y\<in>set post. f y \<le> f r)"
  using assms
proof (induction xs arbitrary: best)
  case Nil
  have "[best] = [] @ best # []" by simp
  then show ?case by fastforce
next
  case (Cons x xs)
  have kx: "key x = Inr (f x)" and rest: "\<forall>y\<in>set xs. key y = Inr (f y)"
    using Cons.prems by simp_all
  show ?case
  proof (cases "f best < f x")
    case True
    from Cons.IH [OF rest, of x] obtain pre r post where
      split: "x # xs = pre @ r # post" and res: "max_key_loop key xs x (f x) = Inr r"
      and lt: "\<forall>y\<in>set pre. f y < f r" and le: "\<forall>y\<in>set post. f y \<le> f r"
      by blast
    have "f x \<le> f r"
    proof (cases pre)
      case Nil
      with split show ?thesis by simp
    next
      case (Cons p ps)
      with split lt show ?thesis by auto
    qed
    with True have "f best < f r" by order
    with lt have "\<forall>y\<in>set (best # pre). f y < f r" by simp
    moreover have "best # x # xs = (best # pre) @ r # post" using split by simp
    moreover have "max_key_loop key (x # xs) best (f best) = Inr r"
      using kx True res by simp
    ultimately show ?thesis using le by blast
  next
    case False
    from Cons.IH [OF rest, of best] obtain pre r post where
      split: "best # xs = pre @ r # post" and res: "max_key_loop key xs best (f best) = Inr r"
      and lt: "\<forall>y\<in>set pre. f y < f r" and le: "\<forall>y\<in>set post. f y \<le> f r"
      by blast
    have run: "max_key_loop key (x # xs) best (f best) = Inr r"
      using kx False res by simp
    show ?thesis
    proof (cases pre)
      case Nil
      with split have r: "r = best" and post: "post = xs" by simp_all
      have "best # x # xs = [] @ r # (x # xs)" using r by simp
      moreover have "\<forall>y\<in>set (x # xs). f y \<le> f r" using le post r False by auto
      ultimately show ?thesis using run by fastforce
    next
      case (Cons p ps)
      with split have p: "p = best" and xs: "xs = ps @ r # post" by simp_all
      have "f best < f r" using lt Cons p by simp
      with False have "f x < f r" by order
      then have "\<forall>y\<in>set (best # x # ps). f y < f r" using lt Cons p by simp
      moreover have "best # x # xs = (best # x # ps) @ r # post" using xs by simp
      ultimately show ?thesis using run le by blast
    qed
  qed
qed

lemma py_max_first:
  assumes "xs \<noteq> []" and "\<forall>x\<in>set xs. key x = Inr (f x)"
  shows "\<exists>pre r post. xs = pre @ r # post \<and> py_max key xs = Inr r
           \<and> (\<forall>y\<in>set pre. f y < f r) \<and> (\<forall>y\<in>set post. f y \<le> f r)"
proof (cases xs)
  case Nil
  with assms show ?thesis by simp
next
  case (Cons x ys)
  with assms have "key x = Inr (f x)" "\<forall>y\<in>set ys. key y = Inr (f y)" by simp_all
  with max_key_loop_first [of ys key f x] Cons show ?thesis by simp
qed

lemma max_key_loop_member:
  "max_key_loop key xs best k = Inr r \<Longrightarrow> r = best \<or> r \<in> set xs"
  by (induction xs arbitrary: best k) (auto split: sum.splits if_splits)

lemma py_max_member: "py_max key xs = Inr r \<Longrightarrow> r \<in> set xs"
  by (cases xs) (auto split: sum.splits dest: max_key_loop_member)

lemma minimax_alpha_beta_legal:
  assumes "actions G st \<noteq> []"
  shows "\<exists>a\<in>set (actions G st). minimax_alpha_beta G pid st depth = Inr a"
proof -
  from py_max_first [OF assms, of "\<lambda>x. Inr (min_value G pid (result G st x) MInf PInf (depth - 1))"
      "\<lambda>x. min_value G pid (result G st x) MInf PInf (depth - 1)"]
  obtain a where "minimax_alpha_beta G pid st depth = Inr a"
    unfolding minimax_alpha_beta_def by auto
  moreover from this have "a \<in> set (actions G st)"
    unfolding minimax_alpha_beta_def by (rule py_max_member)
  ultimately show ?thesis by blast
qed

lemma upto_1_5: "[1 .. 5] = [1, 2, 3, 4, (5::int)]"
  by (simp add: upto.simps)

text \<open>
  C6. At a state with a non-empty action list, \<^verbatim>\<open>minimax_alpha_beta\<close> returns an
  action \<open>a\<close> of \<^verbatim>\<open>state.actions()\<close> that maximises
  \<^verbatim>\<open>min_value(state.result(a), -inf, +inf, depth - 1)\<close>, and it is the first such
  action in the enumeration order: every action listed before it has a strictly
  smaller value, every action listed after it a value that is not greater.
\<close>

theorem minimax_root_first_maximum:
  assumes "actions G st \<noteq> []"
  shows "\<exists>pre a post. actions G st = pre @ a # post
           \<and> minimax_alpha_beta G pid st depth = Inr a
           \<and> (\<forall>b\<in>set pre. min_value G pid (result G st b) MInf PInf (depth - 1)
                              < min_value G pid (result G st a) MInf PInf (depth - 1))
           \<and> (\<forall>b\<in>set post. min_value G pid (result G st b) MInf PInf (depth - 1)
                              \<le> min_value G pid (result G st a) MInf PInf (depth - 1))"
  unfolding minimax_alpha_beta_def
  using py_max_first [OF assms, of "\<lambda>x. Inr (min_value G pid (result G st x) MInf PInf (depth - 1))"
      "\<lambda>x. min_value G pid (result G st x) MInf PInf (depth - 1)"]
  by simp

theorem minimax_root_first_maximum_witness:
  "actions toy 0 \<noteq> [] \<and>
   (\<exists>pre a post. actions toy 0 = pre @ a # post
           \<and> minimax_alpha_beta toy 0 0 3 = Inr a
           \<and> (\<forall>b\<in>set pre. min_value toy 0 (result toy 0 b) MInf PInf (3 - 1)
                              < min_value toy 0 (result toy 0 a) MInf PInf (3 - 1))
           \<and> (\<forall>b\<in>set post. min_value toy 0 (result toy 0 b) MInf PInf (3 - 1)
                              \<le> min_value toy 0 (result toy 0 a) MInf PInf (3 - 1)))"
  using minimax_root_first_maximum [of toy 0 0 3] by (simp add: toy_def)

text \<open>
  C7. At a non-terminal state with \<^verbatim>\<open>ply_count >= 2\<close> (and, as the interface
  promises of a non-terminal state, at least one legal action),
  \<^verbatim>\<open>MinimaxAlphaBetaPlayer.get_action\<close> puts five values into the sink, the results
  of the searches of depth 1, 2, 3, 4 and 5 in this order, each of them a legal action;
  the sink after the searches up to depth \<open>k\<close> holds the first \<open>k\<close> of them, so from
  depth 1 on its last value is a legal action.
\<close>

theorem iterative_deepening_pushes:
  assumes "2 \<le> ply_count G st" and "\<not> terminal_test G st" and "actions G st \<noteq> []"
  shows "\<exists>a1 a2 a3 a4 a5.
           minimax_get_action G pid rng pos queue st = (queue @ [a1, a2, a3, a4, a5], None)
           \<and> minimax_alpha_beta G pid st 1 = Inr a1
           \<and> minimax_alpha_beta G pid st 2 = Inr a2
           \<and> minimax_alpha_beta G pid st 3 = Inr a3
           \<and> minimax_alpha_beta G pid st 4 = Inr a4
           \<and> minimax_alpha_beta G pid st 5 = Inr a5
           \<and> set [a1, a2, a3, a4, a5] \<subseteq> set (actions G st)
           \<and> put_depths G pid st queue [1] = (queue @ [a1], None)
           \<and> put_depths G pid st queue [1, 2] = (queue @ [a1, a2], None)
           \<and> put_depths G pid st queue [1, 2, 3] = (queue @ [a1, a2, a3], None)
           \<and> put_depths G pid st queue [1, 2, 3, 4] = (queue @ [a1, a2, a3, a4], None)"
proof -
  from minimax_alpha_beta_legal [OF assms(3)] obtain a1 a2 a3 a4 a5 where
    "a1 \<in> set (actions G st)" "minimax_alpha_beta G pid st 1 = Inr a1"
    "a2 \<in> set (actions G st)" "minimax_alpha_beta G pid st 2 = Inr a2"
    "a3 \<in> set (actions G st)" "minimax_alpha_beta G pid st 3 = Inr a3"
    "a4 \<in> set (actions G st)" "minimax_alpha_beta G pid st 4 = Inr a4"
    "a5 \<in> set (actions G st)" "minimax_alpha_beta G pid st 5 = Inr a5"
    by metis
  with assms(1) show ?thesis
    by (simp add: minimax_get_action_def upto_1_5)
qed

theorem iterative_deepening_pushes_witness:
  "2 \<le> ply_count toy 3 \<and> \<not> terminal_test toy 3 \<and> actions toy 3 \<noteq> [] \<and>
   (\<exists>a1 a2 a3 a4 a5.
           minimax_get_action toy 0 (\<lambda>_. 0) 0 [] 3 = ([] @ [a1, a2, a3, a4, a5], None)
           \<and> minimax_alpha_beta toy 0 3 1 = Inr a1
           \<and> minimax_alpha_beta toy 0 3 2 = Inr a2
           \<and> minimax_alpha_beta toy 0 3 3 = Inr a3
           \<and> minimax_alpha_beta toy 0 3 4 = Inr a4
           \<and> minimax_alpha_beta toy 0 3 5 = Inr a5
           \<and> set [a1, a2, a3, a4, a5] \<subseteq> set (actions toy 3)
           \<and> put_depths toy 0 3 [] [1] = ([] @ [a1], None)
           \<and> put_depths toy 0 3 [] [1, 2] = ([] @ [a1, a2], None)
           \<and> put_depths toy 0 3 [] [1, 2, 3] = ([] @ [a1, a2, a3], None)
           \<and> put_depths toy 0 3 [] [1, 2, 3, 4] = ([] @ [a1, a2, a3, a4], None))"
  using iterative_deepening_pushes [of toy 3 0 "\<lambda>_. 0" 0 "[]"]
  by (simp add: toy_def toy_depth_def)

text \<open>
  C8. At a state with \<^verbatim>\<open>ply_count < 2\<close> and a non-empty action list, the
  \<^verbatim>\<open>get_action\<close> of both players puts exactly one value into the sink, the element
  of \<^verbatim>\<open>state.actions()\<close> at the index drawn from the random source, and nothing
  else: the result depends neither on a search nor on the time budget.
\<close>

theorem opening_policy_random_choice:
  assumes "ply_count G st < 2" and "actions G st \<noteq> []"
  shows "minimax_get_action G pid rng pos queue st
           = (queue @ [actions G st ! (rng pos mod length (actions G st))], None)
         \<and> uct_get_action G rng pos budget queue st
           = Some (queue @ [actions G st ! (rng pos mod length (actions G st))], None)
         \<and> actions G st ! (rng pos mod length (actions G st)) \<in> set (actions G st)"
  using assms by (simp add: minimax_get_action_def uct_get_action_def choice_def)

theorem opening_policy_random_choice_witness:
  "ply_count toy 0 < 2 \<and> actions toy 0 \<noteq> [] \<and>
   minimax_get_action toy 0 (\<lambda>_. 7) 0 [] 0 = ([1], None) \<and>
   uct_get_action toy (\<lambda>_. 7) 0 100 [] 0 = Some ([1], None)"
proof -
  have h1: "ply_count toy 0 < 2" by (simp add: toy_def toy_depth_def)
  have h2: "actions toy 0 \<noteq> []" by (simp add: toy_def)
  have e: "actions toy 0 ! (7 mod length (actions toy 0)) = 1" by code_simp
  from opening_policy_random_choice [OF h1 h2, of 0 "\<lambda>_. 7" 0 "[]" 100] h1 h2
  show ?thesis unfolding e by simp
qed

section \<open>Expansion\<close>

text \<open>The loop of \<^verbatim>\<open>expand\<close> stops at the first action that was not attempted.\<close>

lemma expand_loop_first:
  assumes "\<exists>a\<in>set acts. a \<notin> set tried"
  shows "\<exists>pre a post. acts = pre @ a # post \<and> set pre \<subseteq> set tried \<and> a \<notin> set tried
           \<and> expand_loop acts tried = Some a"
  using assms
proof (induction acts)
  case Nil
  then show ?case by simp
next
  case (Cons x xs)
  show ?case
  proof (cases "x \<in> set tried")
    case False
    have "x # xs = [] @ x # xs" by simp
    with False show ?thesis by fastforce
  next
    case True
    with Cons.prems have "\<exists>a\<in>set xs. a \<notin> set tried" by auto
    from Cons.IH [OF this] obtain pre a post where
      "xs = pre @ a # post" "set pre \<subseteq> set tried" "a \<notin> set tried" "expand_loop xs tried = Some a"
      by blast
    with True have "x # xs = (x # pre) @ a # post \<and> set (x # pre) \<subseteq> set tried \<and> a \<notin> set tried
        \<and> expand_loop (x # xs) tried = Some a" by simp
    then show ?thesis by blast
  qed
qed

lemma add_child_eq:
  assumes "n < length t"
  shows "add_child t n s a =
     (t @ [Node s (Some n)])[n := (t ! n)\<lparr>children := children (t ! n) @ [length t],
                                          child_actions := child_actions (t ! n) @ [a]\<rparr>]"
  using assms by (simp add: add_child_def Let_def nth_append)

text \<open>
  C9. At a node of the tree with a legal action that is not in its
  \<^verbatim>\<open>child_actions\<close>, \<^verbatim>\<open>expand\<close> attaches exactly one new node: it is the last
  child of the node, its action is the first action of \<^verbatim>\<open>state.actions()\<close> that was
  not attempted (all actions before it were), its state is the result of that action,
  its parent is the node, and it is the node returned. No other node changes, and when
  the attempted actions were pairwise distinct they still are.
\<close>

theorem expand_first_untried:
  assumes "n < length t"
    and "\<exists>a\<in>set (actions G (state (t ! n))). a \<notin> set (child_actions (t ! n))"
    and "distinct (child_actions (t ! n))"
  shows "\<exists>pre a post t'.
           actions G (state (t ! n)) = pre @ a # post
           \<and> set pre \<subseteq> set (child_actions (t ! n)) \<and> a \<notin> set (child_actions (t ! n))
           \<and> expand G t n = Inr (t', length t)
           \<and> t' = (t @ [Node (result G (state (t ! n)) a) (Some n)])
                    [n := (t ! n)\<lparr>children := children (t ! n) @ [length t],
                                   child_actions := child_actions (t ! n) @ [a]\<rparr>]
           \<and> length t' = length t + 1
           \<and> state (t' ! length t) = result G (state (t ! n)) a
           \<and> parent (t' ! length t) = Some n
           \<and> children (t' ! n) = children (t ! n) @ [length t]
           \<and> child_actions (t' ! n) = child_actions (t ! n) @ [a]
           \<and> distinct (child_actions (t' ! n))
           \<and> (\<forall>i<length t. i \<noteq> n \<longrightarrow> t' ! i = t ! i)"
proof -
  from expand_loop_first [OF assms(2)] obtain pre a post where
    split: "actions G (state (t ! n)) = pre @ a # post"
    and pre: "set pre \<subseteq> set (child_actions (t ! n))" and a: "a \<notin> set (child_actions (t ! n))"
    and loop: "expand_loop (actions G (state (t ! n))) (child_actions (t ! n)) = Some a"
    by blast
  let ?t' = "(t @ [Node (result G (state (t ! n)) a) (Some n)])
                    [n := (t ! n)\<lparr>children := children (t ! n) @ [length t],
                                   child_actions := child_actions (t ! n) @ [a]\<rparr>]"
  have ac: "add_child t n (result G (state (t ! n)) a) a = ?t'"
    using assms(1) by (rule add_child_eq)
  have n': "?t' ! n = (t ! n)\<lparr>children := children (t ! n) @ [length t],
                                   child_actions := child_actions (t ! n) @ [a]\<rparr>"
    using assms(1) by simp
  have new: "?t' ! length t = Node (result G (state (t ! n)) a) (Some n)"
    using assms(1) by (simp add: nth_append)
  have ex: "expand G t n = Inr (?t', length t)"
    using loop ac n' by (simp add: expand_def Let_def)
  have others: "\<forall>i<length t. i \<noteq> n \<longrightarrow> ?t' ! i = t ! i"
    by (simp add: nth_append)
  show ?thesis
    using split pre a ex n' new others assms(3)
    by (simp add: Node_def) blast
qed

theorem expand_first_untried_witness:
  "0 < length [Node 0 None :: (nat, nat) node]
   \<and> (\<exists>a\<in>set (actions toy (state ([Node 0 None :: (nat, nat) node] ! 0))).
          a \<notin> set (child_actions ([Node 0 None :: (nat, nat) node] ! 0)))
   \<and> distinct (child_actions ([Node 0 None :: (nat, nat) node] ! 0))
   \<and> (\<exists>t'. expand toy [Node 0 None] 0 = Inr (t', 1)
          \<and> length t' = 2
          \<and> state (t' ! 1) = 1
          \<and> parent (t' ! 1) = Some 0
          \<and> children (t' ! 0) = [1]
          \<and> child_actions (t' ! 0) = [0])"
proof -
  let ?t = "[Node 0 None :: (nat, nat) node]"
  have h1: "0 < length ?t" by simp
  have h2: "\<exists>a\<in>set (actions toy (state (?t ! 0))). a \<notin> set (child_actions (?t ! 0))"
    by (auto simp: toy_def Node_def)
  have h3: "distinct (child_actions (?t ! 0))" by (simp add: Node_def)
  from expand_first_untried [OF h1 h2 h3] obtain pre a post t' where
    a: "actions toy (state (?t ! 0)) = pre @ a # post" "set pre \<subseteq> set (child_actions (?t ! 0))"
    and e: "expand toy ?t 0 = Inr (t', length ?t)" "length t' = length ?t + 1"
      "state (t' ! length ?t) = result toy (state (?t ! 0)) a"
      "parent (t' ! length ?t) = Some 0"
      "children (t' ! 0) = children (?t ! 0) @ [length ?t]"
      "child_actions (t' ! 0) = child_actions (?t ! 0) @ [a]"
    by blast
  from a have "pre = []" by (simp add: Node_def)
  with a(1) have "a = 0" by (simp add: toy_def Node_def)
  with e have "expand toy ?t 0 = Inr (t', 1) \<and> length t' = 2 \<and> state (t' ! 1) = 1
          \<and> parent (t' ! 1) = Some 0 \<and> children (t' ! 0) = [1] \<and> child_actions (t' ! 0) = [0]"
    by (simp add: toy_def Node_def)
  with h1 h2 h3 show ?thesis by blast
qed

section \<open>Rollout\<close>

text \<open>
  A playout that meets its first terminal state after \<open>k\<close> moves, having had a legal
  action in every state before, makes the loop of \<^verbatim>\<open>rollout_policy\<close> return that
  state after \<open>k\<close> draws.
\<close>

lemma rollout_loop_playout:
  assumes "terminal_test G (playout G rng pos s k)"
    and "\<forall>j<k. \<not> terminal_test G (playout G rng pos s j) \<and> actions G (playout G rng pos s j) \<noteq> []"
  shows "rollout_loop G rng pos s = Some (Inr (playout G rng pos s k, pos + k))"
  using assms
proof (induction k arbitrary: pos s)
  case 0
  then show ?case by (simp add: rollout_loop.simps)
next
  case (Suc k)
  let ?s' = "result G s (actions G s ! (rng pos mod length (actions G s)))"
  from Suc.prems(2) have now: "\<not> terminal_test G s" "actions G s \<noteq> []"
    by force+
  have "terminal_test G (playout G rng (pos + 1) ?s' k)"
    using Suc.prems(1) by simp
  moreover have "\<forall>j<k. \<not> terminal_test G (playout G rng (pos + 1) ?s' j)
                     \<and> actions G (playout G rng (pos + 1) ?s' j) \<noteq> []"
  proof (intro allI impI)
    fix j assume "j < k"
    then have "Suc j < Suc k" by simp
    with Suc.prems(2) show "\<not> terminal_test G (playout G rng (pos + 1) ?s' j)
                     \<and> actions G (playout G rng (pos + 1) ?s' j) \<noteq> []"
      by fastforce
  qed
  ultimately have "rollout_loop G rng (pos + 1) ?s' = Some (Inr (playout G rng (pos + 1) ?s' k, pos + 1 + k))"
    by (rule Suc.IH)
  then show ?case
    using now by (subst rollout_loop.simps) (simp add: choice_def)
qed

text \<open>
  C2, as the code has it. From the state of the node, \<^verbatim>\<open>rollout_policy\<close> plays the
  legal actions at the drawn indices until the first terminal state, and it returns
  \<open>-1\<close> when the player to move at the node has liberties in that terminal state, and
  \<open>+1\<close> otherwise: the sign is the opposite of the one in the specification.
\<close>

theorem rollout_reward:
  assumes "terminal_test G (playout G rng pos (state (t ! n)) k)"
    and "\<forall>j<k. \<not> terminal_test G (playout G rng pos (state (t ! n)) j)
                \<and> actions G (playout G rng pos (state (t ! n)) j) \<noteq> []"
  shows "rollout_policy G rng pos t n p =
           Some (Inr (if has_liberties G (playout G rng pos (state (t ! n)) k) (player G (state (t ! n)))
                      then - 1 else 1, pos + k))"
  using rollout_loop_playout [OF assms] by (simp add: rollout_policy_def)

theorem rollout_reward_witness:
  "terminal_test toy (playout toy (\<lambda>_. 0) 0 (state ([Node 7 None :: (nat, nat) node] ! 0)) 1)
   \<and> \<not> terminal_test toy (playout toy (\<lambda>_. 0) 0 (state ([Node 7 None :: (nat, nat) node] ! 0)) 0)
   \<and> actions toy (playout toy (\<lambda>_. 0) 0 (state ([Node 7 None :: (nat, nat) node] ! 0)) 0) \<noteq> []
   \<and> rollout_policy toy (\<lambda>_. 0) 0 [Node 7 None] 0 0 = Some (Inr (- 1, 1))"
proof -
  let ?t = "[Node 7 None :: (nat, nat) node]"
  have h1: "terminal_test toy (playout toy (\<lambda>_. 0) 0 (state (?t ! 0)) 1)"
    by (simp add: toy_def Node_def)
  have h2: "\<forall>j<1. \<not> terminal_test toy (playout toy (\<lambda>_. 0) 0 (state (?t ! 0)) j)
                \<and> actions toy (playout toy (\<lambda>_. 0) 0 (state (?t ! 0)) j) \<noteq> []"
    by (simp add: toy_def Node_def)
  have e: "has_liberties toy (playout toy (\<lambda>_. 0) 0 (state (?t ! 0)) 1) (player toy (state (?t ! 0)))"
    by (simp add: toy_def Node_def toy_depth_def)
  have "rollout_policy toy (\<lambda>_. 0) 0 ?t 0 0 =
          Some (Inr (if has_liberties toy (playout toy (\<lambda>_. 0) 0 (state (?t ! 0)) 1)
                          (player toy (state (?t ! 0)))
                     then - 1 else 1, 0 + 1))"
    using h1 h2 by (rule rollout_reward)
  then have "rollout_policy toy (\<lambda>_. 0) 0 ?t 0 0 = Some (Inr (- 1, 1))"
    unfolding if_P [OF e] by simp
  moreover have "\<not> terminal_test toy (playout toy (\<lambda>_. 0) 0 (state (?t ! 0)) 0)"
    "actions toy (playout toy (\<lambda>_. 0) 0 (state (?t ! 0)) 0) \<noteq> []"
    using h2 by blast+
  ultimately show ?thesis using h1 by blast
qed

text \<open>
  The sign claimed by the specification fails: from the state \<open>7\<close> of the small game,
  where player 1 is to move, the playout ends in the terminal state \<open>15\<close>, in which
  player 1 has liberties, and the reward is \<open>-1\<close>, not \<open>+1\<close>.
\<close>

theorem rollout_reward_counterexample:
  "rollout_loop toy (\<lambda>_. 0) 0 7 = Some (Inr (15, 1))
   \<and> state ([Node 7 None :: (nat, nat) node] ! 0) = 7
   \<and> terminal_test toy 15
   \<and> has_liberties toy 15 (player toy 7)
   \<and> rollout_policy toy (\<lambda>_. 0) 0 [Node 7 None] 0 (player toy 0) = Some (Inr (- 1, 1))
   \<and> rollout_policy toy (\<lambda>_. 0) 0 [Node 7 None] 0 (player toy 0) \<noteq> Some (Inr (1, 1))"
proof -
  have l: "rollout_loop toy (\<lambda>_. 0) 0 7 = Some (Inr (15, 1))"
    by (simp add: rollout_loop.simps toy_def choice_def)
  have "has_liberties toy 15 (player toy 7)"
    by (simp add: toy_def toy_depth_def)
  moreover have "terminal_test toy 15" by (simp add: toy_def)
  ultimately show ?thesis using l by (simp add: rollout_policy_def Node_def)
qed

text \<open>
  C10. The argument \<^verbatim>\<open>player\<close> of \<^verbatim>\<open>rollout_policy\<close> has no influence: with the
  same node and the same random draws, two calls with different player identifiers
  give the same outcome (the same reward, the same exception, or no return).
\<close>

theorem rollout_ignores_player_argument:
  "rollout_policy G rng pos t n p1 = rollout_policy G rng pos t n p2"
  by (simp add: rollout_policy_def)

theorem rollout_ignores_player_argument_witness:
  "rollout_policy toy (\<lambda>_. 0) 0 [Node 7 None] 0 0 = rollout_policy toy (\<lambda>_. 0) 0 [Node 7 None] 0 1"
  by (rule rollout_ignores_player_argument)

section \<open>Backpropagation\<close>

text \<open>\<^verbatim>\<open>update\<close> changes the two counters of one node and nothing else.\<close>

lemma parents_ordered_iff:
  "parents_ordered t \<longleftrightarrow> (\<forall>n<length t. \<forall>p. parent (t ! n) = Some p \<longrightarrow> p < n)"
  by (auto simp: parents_ordered_def list_all_iff split: option.splits)

lemma length_update [simp]: "length (update t i v) = length t"
  by (simp add: update_def Let_def)

lemma update_nth_other: "j \<noteq> i \<Longrightarrow> update t i v ! j = t ! j"
  by (simp add: update_def Let_def)

lemma update_nth_same:
  "i < length t \<Longrightarrow>
     update t i v ! i = (t ! i)\<lparr>visits := visits (t ! i) + 1, value := value (t ! i) + v\<rparr>"
  by (simp add: update_def Let_def)

lemma update_beyond: "\<not> i < length t \<Longrightarrow> update t i v = t"
  by (simp add: update_def Let_def list_update_beyond not_less)

lemma parent_update [simp]: "parent (update t i v ! j) = parent (t ! j)"
proof (cases "j = i \<and> i < length t")
  case True
  then show ?thesis by (simp add: update_nth_same)
next
  case False
  then show ?thesis
    by (cases "j = i") (simp_all add: update_nth_other update_beyond)
qed

lemma parents_ordered_update: "parents_ordered t \<Longrightarrow> parents_ordered (update t i v)"
  by (simp add: parents_ordered_iff)

lemma ancestor_update [simp]: "ancestor (update t i v) n d = ancestor t n d"
  by (induction d arbitrary: n) (simp_all split: option.splits)

lemma ancestor_le:
  assumes "parents_ordered t" and "n < length t" and "ancestor t n d = Some i"
  shows "i \<le> n"
  using assms(2,3)
proof (induction d arbitrary: n)
  case 0
  then show ?case by simp
next
  case (Suc d)
  from Suc.prems(2) obtain p where p: "parent (t ! n) = Some p" and a: "ancestor t p d = Some i"
    by (auto split: option.splits)
  from assms(1) Suc.prems(1) p have "p < n" by (simp add: parents_ordered_iff)
  with Suc.prems(1) have "p < length t" by simp
  from Suc.IH [OF this a] \<open>p < n\<close> show ?case by simp
qed

text \<open>
  The walk up the parent references, by induction on the address of the node it starts
  from: every parent has a smaller address.
\<close>

lemma backprop_walk:
  assumes "parents_ordered t" and "leaf < length t"
  shows "\<exists>t'. backprop t (Some leaf) v = Some t' \<and> length t' = length t
           \<and> (\<forall>d i. ancestor t leaf d = Some i \<longrightarrow>
                 t' ! i = (t ! i)\<lparr>visits := visits (t ! i) + 1,
                                   value := value (t ! i) + (- 1) ^ d * v\<rparr>)
           \<and> (\<forall>i<length t. (\<forall>d. ancestor t leaf d \<noteq> Some i) \<longrightarrow> t' ! i = t ! i)"
  using assms
proof (induction leaf arbitrary: t v rule: less_induct)
  case (less leaf)
  let ?t1 = "update t leaf v"
  have step: "backprop t (Some leaf) v = backprop ?t1 (parent (t ! leaf)) (- v)"
    by (subst backprop.simps) simp
  have same: "?t1 ! leaf = (t ! leaf)\<lparr>visits := visits (t ! leaf) + 1, value := value (t ! leaf) + v\<rparr>"
    using less.prems(2) by (rule update_nth_same)
  show ?case
  proof (cases "parent (t ! leaf)")
    case None
    have anc: "ancestor t leaf d = Some i \<longleftrightarrow> d = 0 \<and> i = leaf" for d i
      using None by (cases d) auto
    have "backprop t (Some leaf) v = Some ?t1"
      using step None by (simp add: backprop.simps)
    moreover have "\<forall>i<length t. (\<forall>d. ancestor t leaf d \<noteq> Some i) \<longrightarrow> ?t1 ! i = t ! i"
    proof (intro allI impI)
      fix i assume "\<forall>d. ancestor t leaf d \<noteq> Some i"
      then have "ancestor t leaf 0 \<noteq> Some i" by blast
      then have "i \<noteq> leaf" by simp
      then show "?t1 ! i = t ! i" by (rule update_nth_other)
    qed
    ultimately show ?thesis using same by (simp add: anc)
  next
    case (Some p)
    from less.prems Some have pl: "p < leaf" by (simp add: parents_ordered_iff)
    have po1: "parents_ordered ?t1" using less.prems(1) by (rule parents_ordered_update)
    have p1: "p < length ?t1" using pl less.prems(2) by simp
    from less.IH [OF pl po1 p1, of "- v"] obtain t' where
      run: "backprop ?t1 (Some p) (- v) = Some t'" and len: "length t' = length t"
      and anc: "\<And>d i. ancestor t p d = Some i \<Longrightarrow>
                 t' ! i = (?t1 ! i)\<lparr>visits := visits (?t1 ! i) + 1,
                                    value := value (?t1 ! i) + (- 1) ^ d * (- v)\<rparr>"
      and oth: "\<And>i. i < length t \<Longrightarrow> (\<forall>d. ancestor t p d \<noteq> Some i) \<Longrightarrow> t' ! i = ?t1 ! i"
      by auto
    have below: "i \<le> p" if "ancestor t p d = Some i" for d i
      using less.prems(1) _ that by (rule ancestor_le) (use pl less.prems(2) in simp)
    have leaf_not: "ancestor t p d \<noteq> Some leaf" for d
      using below [of d leaf] pl by auto
    have "backprop t (Some leaf) v = Some t'" using step Some run by simp
    moreover have "t' ! i = (t ! i)\<lparr>visits := visits (t ! i) + 1,
                                   value := value (t ! i) + (- 1) ^ d * v\<rparr>"
      if a: "ancestor t leaf d = Some i" for d i
    proof (cases d)
      case 0
      with a have "i = leaf" by simp
      moreover have "t' ! leaf = ?t1 ! leaf"
        using less.prems(2) leaf_not by (intro oth) auto
      ultimately show ?thesis using same 0 by simp
    next
      case (Suc d')
      with a Some have a': "ancestor t p d' = Some i" by simp
      from below [OF a'] pl have "i \<noteq> leaf" by simp
      then have "?t1 ! i = t ! i" by (rule update_nth_other)
      with anc [OF a'] Suc show ?thesis by simp
    qed
    moreover have "t' ! i = t ! i" if "i < length t" and n: "\<forall>d. ancestor t leaf d \<noteq> Some i" for i
    proof -
      from n [rule_format, of 0] have "i \<noteq> leaf" by simp
      then have "?t1 ! i = t ! i" by (rule update_nth_other)
      moreover have "\<forall>d. ancestor t p d \<noteq> Some i"
      proof
        fix d show "ancestor t p d \<noteq> Some i"
          using n [rule_format, of "Suc d"] Some by simp
      qed
      ultimately show ?thesis using oth [OF that(1)] by simp
    qed
    ultimately show ?thesis using len by blast
  qed
qed


text \<open>
  C4. In a tree whose parent references point to earlier nodes, \<^verbatim>\<open>backprop(leaf, v)\<close>
  returns, and in the tree it leaves the node \<open>d\<close> parent references above
  \<^verbatim>\<open>leaf\<close> (\<open>d = 0\<close> for \<^verbatim>\<open>leaf\<close> itself, up to the root) has its visit count
  increased by exactly 1 and its value increased by \<open>(-1)^d * v\<close>, its other fields
  being unchanged; every node that is not on this chain is unchanged.
\<close>

theorem backprop_updates_ancestors:
  assumes "parents_ordered t" and "leaf < length t"
  shows "\<exists>t'. backprop t (Some leaf) v = Some t' \<and> length t' = length t
           \<and> (\<forall>d i. ancestor t leaf d = Some i \<longrightarrow>
                 t' ! i = (t ! i)\<lparr>visits := visits (t ! i) + 1,
                                   value := value (t ! i) + (- 1) ^ d * v\<rparr>)
           \<and> (\<forall>i<length t. (\<forall>d. ancestor t leaf d \<noteq> Some i) \<longrightarrow> t' ! i = t ! i)"
  using assms by (rule backprop_walk)

theorem backprop_updates_ancestors_witness:
  "parents_ordered [Node 0 None, Node 1 (Some 0), Node 3 (Some 1), Node (2::nat) (Some 0) :: (nat, nat) node]
   \<and> 2 < length [Node 0 None, Node 1 (Some 0), Node 3 (Some 1), Node (2::nat) (Some 0) :: (nat, nat) node]
   \<and> (\<exists>t'. backprop [Node 0 None, Node 1 (Some 0), Node 3 (Some 1), Node 2 (Some 0) :: (nat, nat) node]
                (Some 2) 1 = Some t'
          \<and> length t' = 4
          \<and> visits (t' ! 2) = 2 \<and> value (t' ! 2) = 1
          \<and> visits (t' ! 1) = 2 \<and> value (t' ! 1) = - 1
          \<and> visits (t' ! 0) = 2 \<and> value (t' ! 0) = 1
          \<and> t' ! 3 = Node 2 (Some 0))"
proof -
  let ?t = "[Node 0 None, Node 1 (Some 0), Node 3 (Some 1), Node (2::nat) (Some 0) :: (nat, nat) node]"
  have h1: "parents_ordered ?t" by code_simp
  have h2: "2 < length ?t" by simp
  have a0: "ancestor ?t 2 0 = Some 2" by simp
  have a1: "ancestor ?t 2 1 = Some 1" by (simp add: Node_def)
  have a2: "ancestor ?t 2 2 = Some 0" by (simp add: Node_def numeral_2_eq_2)
  have a3: "ancestor ?t 2 d \<noteq> Some 3" for d
  proof (cases d)
    case 0 then show ?thesis by simp
  next
    case (Suc d1)
    show ?thesis
    proof (cases d1)
      case 0 with Suc show ?thesis by (simp add: Node_def)
    next
      case (Suc d2)
      with \<open>d = Suc d1\<close> show ?thesis by (cases d2) (simp_all add: Node_def)
    qed
  qed
  from backprop_updates_ancestors [OF h1 h2, of 1] obtain t' where
    run: "backprop ?t (Some 2) 1 = Some t'" and len: "length t' = length ?t"
    and anc: "\<And>d i. ancestor ?t 2 d = Some i \<Longrightarrow>
                 t' ! i = (?t ! i)\<lparr>visits := visits (?t ! i) + 1,
                                    value := value (?t ! i) + (- 1) ^ d * 1\<rparr>"
    and oth: "\<And>i. i < length ?t \<Longrightarrow> (\<forall>d. ancestor ?t 2 d \<noteq> Some i) \<Longrightarrow> t' ! i = ?t ! i"
    by blast
  have "t' ! 3 = ?t ! 3" using a3 by (intro oth) simp_all
  then have "t' ! 3 = Node 2 (Some 0)" by simp
  moreover from anc [OF a0] have "visits (t' ! 2) = 2 \<and> value (t' ! 2) = 1" by (simp add: Node_def)
  moreover from anc [OF a1] have "visits (t' ! 1) = 2 \<and> value (t' ! 1) = - 1" by (simp add: Node_def)
  moreover from anc [OF a2] have "visits (t' ! 0) = 2 \<and> value (t' ! 0) = 1" by (simp add: Node_def)
  moreover from len have "length t' = 4" by simp
  ultimately show ?thesis using h1 h2 run by blast
qed

section \<open>A terminal root\<close>

text \<open>
  C3, as the code has it. At a root state whose \<^verbatim>\<open>terminal_test()\<close> is true,
  \<^verbatim>\<open>monte_carlo_uct\<close> returns at once, whatever the time budget, with the tree
  still the root alone: when the state has legal actions, the result is the one at the
  drawn index; when it has none, \<^verbatim>\<open>random.choice\<close> raises \<^verbatim>\<open>IndexError\<close>
  and no action is returned.
\<close>

theorem terminal_root_choice:
  assumes "terminal_test G st"
  shows "monte_carlo_uct G rng pos budget st =
           (if actions G st = [] then Some (Inl IndexError)
            else Some (Inr (actions G st ! (rng pos mod length (actions G st)),
                            [Node st None], pos + 1)))"
  using assms by (simp add: monte_carlo_uct_def Let_def choice_def Node_def)

theorem terminal_root_choice_witness:
  "terminal_test (toy\<lparr>terminal_test := (\<lambda>s. 7 \<le> s)\<rparr>) 7
   \<and> monte_carlo_uct (toy\<lparr>terminal_test := (\<lambda>s. 7 \<le> s)\<rparr>) (\<lambda>_. 3) 0 10 7
       = Some (Inr (1, [Node 7 None], 1))"
proof -
  let ?G = "toy\<lparr>terminal_test := (\<lambda>s. 7 \<le> s)\<rparr>"
  have h: "terminal_test ?G 7" by simp
  have a: "actions ?G 7 = [0, 1]" by (simp add: toy_def)
  have "[0, 1::nat] ! (3 mod length [0, 1::nat]) = 1" by code_simp
  with terminal_root_choice [OF h, of "\<lambda>_. 3" 0 10] a h show ?thesis by simp
qed

text \<open>
  The claim that an action is returned at every terminal root fails: the terminal
  state \<open>15\<close> of the small game has no legal action, and the call raises
  \<^verbatim>\<open>IndexError\<close>.
\<close>

theorem terminal_root_counterexample:
  "terminal_test toy 15 \<and> actions toy 15 = []
   \<and> monte_carlo_uct toy (\<lambda>_. 0) 0 10 15 = Some (Inl IndexError)"
  by (simp add: monte_carlo_uct_def Let_def choice_def Node_def toy_def)

section \<open>Selection and the final move\<close>

text \<open>
  For a child of \<open>n\<close> in a tree whose visit counts are positive, the key computed by
  \<^verbatim>\<open>best_child\<close> raises no exception and is the selection formula.
\<close>

lemma uct_key_ucb:
  assumes "parent (t ! c) = Some n" and "1 \<le> visits (t ! n)" and "1 \<le> visits (t ! c)"
  shows "uct_key t factor c = Inr (ucb t n factor c)"
proof -
  have "0 \<le> ln (real_of_int (visits (t ! n)))" using assms(2) by simp
  moreover have "0 < real_of_int (visits (t ! c))" using assms(3) by simp
  ultimately have "\<not> 2 * ln (real_of_int (visits (t ! n))) / real_of_int (visits (t ! c)) < 0"
    by (simp add: not_less)
  with assms show ?thesis
    by (simp add: uct_key_def exploit_def explore_def ucb_def)
qed

lemma best_child_first:
  assumes "children (t ! n) \<noteq> []" and "1 \<le> visits (t ! n)"
    and "\<forall>c\<in>set (children (t ! n)). parent (t ! c) = Some n \<and> 1 \<le> visits (t ! c)"
  shows "\<exists>pre c post. children (t ! n) = pre @ c # post \<and> best_child t n factor = Inr c
           \<and> (\<forall>y\<in>set pre. ucb t n factor y < ucb t n factor c)
           \<and> (\<forall>y\<in>set post. ucb t n factor y \<le> ucb t n factor c)"
proof -
  have "\<forall>c\<in>set (children (t ! n)). uct_key t factor c = Inr (ucb t n factor c)"
    using assms(2,3) by (simp add: uct_key_ucb)
  from py_max_first [OF assms(1) this] show ?thesis
    by (simp add: best_child_def)
qed

lemma index_of_split: "c \<notin> set pre \<Longrightarrow> index_of (pre @ c # post) c = Inr (length pre)"
  by (induction pre) auto

text \<open>
  The shape of the heap is kept by every step of the search: \<^verbatim>\<open>update\<close>,
  \<^verbatim>\<open>backprop\<close>, \<^verbatim>\<open>add_child\<close>, \<^verbatim>\<open>expand\<close>, \<^verbatim>\<open>tree_policy\<close> and the
  rounds of \<^verbatim>\<open>monte_carlo_uct\<close>.
\<close>

lemma wf_tree_iff: "wf_tree t \<longleftrightarrow> (\<forall>n<length t. wf_node t n)"
  by (auto simp: wf_tree_def list_all_iff)

lemma wf_node_iff:
  "wf_node t n \<longleftrightarrow>
     1 \<le> visits (t ! n)
     \<and> length (children (t ! n)) = length (child_actions (t ! n))
     \<and> distinct (children (t ! n))
     \<and> (\<forall>c\<in>set (children (t ! n)). n < c \<and> c < length t \<and> parent (t ! c) = Some n)
     \<and> (\<forall>p. parent (t ! n) = Some p \<longrightarrow> p < n)"
  by (cases "parent (t ! n)") (simp_all add: wf_node_def list_all_iff)


lemma wf_tree_parents_ordered: "wf_tree t \<Longrightarrow> parents_ordered t"
  unfolding wf_tree_iff wf_node_iff parents_ordered_iff by blast

lemma wf_tree_update:
  assumes "wf_tree t"
  shows "wf_tree (update t i v)"
proof (cases "i < length t")
  case False
  with assms show ?thesis by (simp add: update_beyond)
next
  case True
  show ?thesis
    unfolding wf_tree_iff
  proof (intro allI impI)
    fix n assume "n < length (update t i v)"
    then have n: "n < length t" by simp
    with assms have "wf_node t n" unfolding wf_tree_iff by blast
    then have w: "1 \<le> visits (t ! n)"
        "length (children (t ! n)) = length (child_actions (t ! n))"
        "distinct (children (t ! n))"
        "\<forall>c\<in>set (children (t ! n)). n < c \<and> c < length t \<and> parent (t ! c) = Some n"
        "\<forall>p. parent (t ! n) = Some p \<longrightarrow> p < n"
      unfolding wf_node_iff by blast+
    have same: "children (update t i v ! n) = children (t ! n)"
      "child_actions (update t i v ! n) = child_actions (t ! n)"
      "visits (t ! n) \<le> visits (update t i v ! n)"
      using True by (cases "n = i"; simp add: update_nth_same update_nth_other)+
    show "wf_node (update t i v) n"
      unfolding wf_node_iff same(1,2) parent_update length_update
      using w same(3) by auto
  qed
qed


lemma backprop_wf_imp:
  assumes "backprop t n v = Some t'"
  shows "wf_tree t \<longrightarrow> wf_tree t' \<and> length t' = length t"
  using assms
proof (rule backprop.raw_induct
    [where P = "\<lambda>t n v t'. wf_tree t \<longrightarrow> wf_tree t' \<and> length t' = length t", rotated])
  fix f :: "('a, 'b) node list \<Rightarrow> nat option \<Rightarrow> int \<Rightarrow> ('a, 'b) node list option"
    and t n v t'
  assume IH: "\<And>t n v y. f t n v = Some y \<Longrightarrow> wf_tree t \<longrightarrow> wf_tree y \<and> length y = length t"
    and body: "(case n of None \<Rightarrow> Some t
                | Some i \<Rightarrow> f (update t i v) (parent (update t i v ! i)) (- v)) = Some t'"
  show "wf_tree t \<longrightarrow> wf_tree t' \<and> length t' = length t"
  proof (cases n)
    case None
    with body show ?thesis by simp
  next
    case (Some i)
    with body have "f (update t i v) (parent (update t i v ! i)) (- v) = Some t'" by simp
    from IH [OF this] show ?thesis by (simp add: wf_tree_update)
  qed
qed

lemma backprop_wf:
  "backprop t n v = Some t' \<Longrightarrow> wf_tree t \<Longrightarrow> wf_tree t' \<and> length t' = length t"
  using backprop_wf_imp by blast

lemma add_child_wf:
  assumes "wf_tree t" and "n < length t"
  shows "wf_tree (add_child t n s a)"
proof -
  let ?t' = "(t @ [Node s (Some n)])[n := (t ! n)\<lparr>children := children (t ! n) @ [length t],
                                          child_actions := child_actions (t ! n) @ [a]\<rparr>]"
  have eq: "add_child t n s a = ?t'" using assms(2) by (rule add_child_eq)
  have new: "?t' ! length t = Node s (Some n)" using assms(2) by (simp add: nth_append)
  have at_n: "?t' ! n = (t ! n)\<lparr>children := children (t ! n) @ [length t],
                                          child_actions := child_actions (t ! n) @ [a]\<rparr>"
    using assms(2) by simp
  have old: "?t' ! i = t ! i" if "i < length t" "i \<noteq> n" for i
    using that by (simp add: nth_append)
  have par: "parent (?t' ! i) = parent (t ! i)" if "i < length t" for i
    using that at_n old by (cases "i = n") simp_all
  have wn: "wf_node t i" if "i < length t" for i
    using assms(1) that by (simp add: wf_tree_iff)
  have "wf_node ?t' i" if i: "i < length ?t'" for i
  proof -
    consider "i = length t" | "i = n" | "i < length t" "i \<noteq> n" using i by force
    then show ?thesis
    proof cases
      case 1
      then show ?thesis using new assms(2) by (simp add: wf_node_iff Node_def)
    next
      case 2
      from wn [OF assms(2)] have w: "1 \<le> visits (t ! n)"
        "length (children (t ! n)) = length (child_actions (t ! n))"
        "distinct (children (t ! n))"
        "\<forall>c\<in>set (children (t ! n)). n < c \<and> c < length t \<and> parent (t ! c) = Some n"
        "\<forall>p. parent (t ! n) = Some p \<longrightarrow> p < n"
        by (simp_all add: wf_node_iff)
      have "length t \<notin> set (children (t ! n))" using w(4) by auto
      moreover have "\<forall>c\<in>set (children (t ! n)). parent (?t' ! c) = Some n"
        using w(4) par by auto
      moreover have "parent (?t' ! length t) = Some n" using new by (simp add: Node_def)
      ultimately show ?thesis
        unfolding 2 wf_node_iff at_n using w assms(2) by auto
    next
      case 3
      from wn [OF 3(1)] have w: "1 \<le> visits (t ! i)"
        "length (children (t ! i)) = length (child_actions (t ! i))"
        "distinct (children (t ! i))"
        "\<forall>c\<in>set (children (t ! i)). i < c \<and> c < length t \<and> parent (t ! c) = Some i"
        "\<forall>p. parent (t ! i) = Some p \<longrightarrow> p < i"
        by (simp_all add: wf_node_iff)
      have "\<forall>c\<in>set (children (t ! i)). parent (?t' ! c) = Some i"
        using w(4) par by auto
      then show ?thesis
        unfolding wf_node_iff old [OF 3] using w by auto
    qed
  qed
  then show ?thesis unfolding eq wf_tree_iff by blast
qed

lemma expand_wf:
  assumes "expand G t n = Inr (t', c)" and "wf_tree t" and "n < length t"
  shows "wf_tree t' \<and> length t \<le> length t' \<and> c < length t'"
proof -
  from assms(1) obtain a where
    t': "t' = add_child t n (result G (state (t ! n)) a) a" and c: "c = last (children (t' ! n))"
    by (auto simp: expand_def Let_def split: option.splits)
  have eq: "t' = (t @ [Node (result G (state (t ! n)) a) (Some n)])
                   [n := (t ! n)\<lparr>children := children (t ! n) @ [length t],
                                  child_actions := child_actions (t ! n) @ [a]\<rparr>]"
    unfolding t' using assms(3) by (rule add_child_eq)
  have "c = length t" unfolding c eq using assms(3) by simp
  moreover have "length t' = length t + 1" unfolding eq by simp
  moreover have "wf_tree t'" unfolding t' using assms(2,3) by (rule add_child_wf)
  ultimately show ?thesis by simp
qed

lemma best_child_member: "best_child t n factor = Inr c \<Longrightarrow> c \<in> set (children (t ! n))"
  unfolding best_child_def by (rule py_max_member)

lemma tree_policy_wf_imp:
  assumes "tree_policy G t n = Some r"
  shows "wf_tree t \<and> n < length t \<longrightarrow>
           (\<forall>t' leaf. r = Inr (t', leaf) \<longrightarrow>
              wf_tree t' \<and> length t \<le> length t' \<and> leaf < length t')"
  using assms
proof (rule tree_policy.raw_induct
    [where P = "\<lambda>G t n r. wf_tree t \<and> n < length t \<longrightarrow>
           (\<forall>t' leaf. r = Inr (t', leaf) \<longrightarrow>
              wf_tree t' \<and> length t \<le> length t' \<and> leaf < length t')", rotated])
  fix f :: "('a, 'b, 'c, 'd) game \<Rightarrow> ('a, 'b) node list \<Rightarrow> nat
              \<Rightarrow> (error + ('a, 'b) node list \<times> nat) option"
    and G t n r
  assume IH: "\<And>G t n r. f G t n = Some r \<Longrightarrow> wf_tree t \<and> n < length t \<longrightarrow>
           (\<forall>t' leaf. r = Inr (t', leaf) \<longrightarrow>
              wf_tree t' \<and> length t \<le> length t' \<and> leaf < length t')"
    and body: "(if \<not> terminal_test G (state (t ! n))
      then if \<not> fully_explored G t n then Some (expand G t n)
           else case best_child t n 1 of Inl e \<Rightarrow> Some (Inl e)
                | Inr c \<Rightarrow> f G t c
      else Some (Inr (t, n))) = Some r"
  show "wf_tree t \<and> n < length t \<longrightarrow>
           (\<forall>t' leaf. r = Inr (t', leaf) \<longrightarrow>
              wf_tree t' \<and> length t \<le> length t' \<and> leaf < length t')"
  proof (intro impI allI)
    fix t' leaf
    assume wf: "wf_tree t \<and> n < length t" and r: "r = Inr (t', leaf)"
    show "wf_tree t' \<and> length t \<le> length t' \<and> leaf < length t'"
    proof (cases "terminal_test G (state (t ! n))")
      case True
      with body r wf show ?thesis by simp
    next
      case False
      show ?thesis
      proof (cases "fully_explored G t n")
        case False
        with \<open>\<not> terminal_test G (state (t ! n))\<close> body r
        have "expand G t n = Inr (t', leaf)" by simp
        moreover from wf have "wf_tree t" "n < length t" by blast+
        ultimately show ?thesis by (rule expand_wf)
      next
        case True
        with \<open>\<not> terminal_test G (state (t ! n))\<close> body obtain c where
          bc: "best_child t n 1 = Inr c" and run: "f G t c = Some r"
          using r by (cases "best_child t n 1") simp_all
        from best_child_member [OF bc] wf have "wf_node t n" "c \<in> set (children (t ! n))"
          unfolding wf_tree_iff by blast+
        then have "c < length t" unfolding wf_node_iff by blast
        with IH [OF run] wf r show ?thesis by blast
      qed
    qed
  qed
qed

lemma tree_policy_wf:
  "tree_policy G t n = Some (Inr (t', leaf)) \<Longrightarrow> wf_tree t \<Longrightarrow> n < length t
     \<Longrightarrow> wf_tree t' \<and> length t \<le> length t' \<and> leaf < length t'"
  using tree_policy_wf_imp by blast

lemma uct_loop_wf:
  "uct_loop G rng budget st0 r t pos = Some (Inr (t', pos')) \<Longrightarrow> wf_tree t \<Longrightarrow> r < length t
     \<Longrightarrow> wf_tree t' \<and> r < length t'"
proof (induction budget arbitrary: t pos)
  case 0
  then show ?case by simp
next
  case (Suc budget)
  from Suc.prems(1) obtain t1 leaf where
    tp: "tree_policy G t r = Some (Inr (t1, leaf))"
    by (cases "tree_policy G t r") (auto split: sum.splits)
  with Suc.prems(1) obtain v pos1 where
    ro: "rollout_policy G rng pos t1 leaf (player G st0) = Some (Inr (v, pos1))"
    by (cases "rollout_policy G rng pos t1 leaf (player G st0)") (auto split: sum.splits)
  with tp Suc.prems(1) obtain t2 where
    bp: "backprop t1 (Some leaf) v = Some t2"
    and rest: "uct_loop G rng budget st0 r t2 pos1 = Some (Inr (t', pos'))"
    by (cases "backprop t1 (Some leaf) v") simp_all
  from tree_policy_wf [OF tp Suc.prems(2,3)] have w1: "wf_tree t1" "length t \<le> length t1" by simp_all
  from backprop_wf [OF bp w1(1)] have w2: "wf_tree t2" "length t2 = length t1" by simp_all
  from w1(2) w2(2) Suc.prems(3) have "r < length t2" by simp
  from Suc.IH [OF rest w2(1) this] show ?case .
qed

lemma final_move_first_best:
  assumes nt: "\<not> terminal_test G st"
    and run: "monte_carlo_uct G rng pos budget st = Some (Inr (a, t, pos'))"
  shows "\<exists>pre c post. children (t ! 0) = pre @ c # post \<and> best_child t 0 0 = Inr c
           \<and> a = child_actions (t ! 0) ! length pre
           \<and> (\<forall>y\<in>set pre. real_of_int (value (t ! y)) / real_of_int (visits (t ! y))
                             < real_of_int (value (t ! c)) / real_of_int (visits (t ! c)))
           \<and> (\<forall>y\<in>set post. real_of_int (value (t ! y)) / real_of_int (visits (t ! y))
                             \<le> real_of_int (value (t ! c)) / real_of_int (visits (t ! c)))"
proof -
  let ?t0 = "[Node st None] :: ('a, 'b) node list"
  from nt have nt0: "\<not> terminal_test G (state (?t0 ! 0))" by (simp add: Node_def)
  from run nt0 obtain c res where
    loop: "uct_loop G rng budget st 0 ?t0 pos = Some (Inr (t, pos'))"
    and bc: "best_child t 0 0 = Inr c"
    and ix: "index_of (children (t ! 0)) c = Inr res"
    and a: "a = child_actions (t ! 0) ! res"
    unfolding monte_carlo_uct_def Let_def
    by (auto split: option.splits sum.splits prod.splits if_splits)
  have "wf_tree ?t0" by (simp add: wf_tree_iff wf_node_iff Node_def)
  with uct_loop_wf [OF loop] have wf: "wf_tree t" and r: "0 < length t" by simp_all
  then have w0: "wf_node t 0" unfolding wf_tree_iff by blast
  then have v0: "1 \<le> visits (t ! 0)" and d: "distinct (children (t ! 0))"
    and ch: "\<forall>c\<in>set (children (t ! 0)). c < length t \<and> parent (t ! c) = Some 0"
    unfolding wf_node_iff by blast+
  have "\<forall>c\<in>set (children (t ! 0)). wf_node t c" using ch wf unfolding wf_tree_iff by blast
  then have vc: "\<forall>c\<in>set (children (t ! 0)). 1 \<le> visits (t ! c)"
    unfolding wf_node_iff by blast
  from best_child_member [OF bc] have ne: "children (t ! 0) \<noteq> []" by auto
  have "\<forall>c\<in>set (children (t ! 0)). parent (t ! c) = Some 0 \<and> 1 \<le> visits (t ! c)"
    using ch vc by blast
  from best_child_first [OF ne v0 this, of 0] obtain pre c' post where
    split: "children (t ! 0) = pre @ c' # post" and bc': "best_child t 0 0 = Inr c'"
    and lt: "\<forall>y\<in>set pre. ucb t 0 0 y < ucb t 0 0 c'"
    and le: "\<forall>y\<in>set post. ucb t 0 0 y \<le> ucb t 0 0 c'"
    by blast
  from bc bc' have c: "c' = c" by simp
  from d split have "c' \<notin> set pre" by simp
  then have "index_of (children (t ! 0)) c' = Inr (length pre)"
    unfolding split by (rule index_of_split)
  with ix c have "res = length pre" by simp
  with a split bc lt le c show ?thesis
    by (auto simp: ucb_def)
qed

section \<open>The search returns\<close>

text \<open>
  The conditions under which every step of the search returns: a state that is not
  terminal has legal actions, listed without repetition, and every move of the game
  decreases a measure \<open>m\<close> of the state, so that every playout ends.
\<close>

lemma game_tree_iff:
  "game_tree G t \<longleftrightarrow>
     (\<forall>n<length t. distinct (child_actions (t ! n))
                   \<and> set (child_actions (t ! n)) \<subseteq> set (actions G (state (t ! n))))"
  by (auto simp: game_tree_def list_all_iff)

lemma expand_eq:
  assumes "n < length t"
    and "expand_loop (actions G (state (t ! n))) (child_actions (t ! n)) = Some a"
  shows "expand G t n = Inr (add_child t n (result G (state (t ! n)) a) a, length t)"
proof -
  have "last (children (add_child t n (result G (state (t ! n)) a) a ! n)) = length t"
    unfolding add_child_eq [OF assms(1)] using assms(1) by simp
  with assms(2) show ?thesis by (simp add: expand_def Let_def)
qed

lemma untried_exists:
  assumes "distinct acts" and "distinct tried" and "set tried \<subseteq> set acts"
    and "length tried \<noteq> length acts"
  shows "\<exists>a\<in>set acts. a \<notin> set tried"
proof (rule ccontr)
  assume "\<not> (\<exists>a\<in>set acts. a \<notin> set tried)"
  with assms(3) have "set tried = set acts" by blast
  then have "card (set tried) = card (set acts)" by simp
  with assms(1,2) have "length tried = length acts" by (simp add: distinct_card)
  with assms(4) show False by simp
qed

lemma add_child_game_tree:
  assumes "game_tree G t" and "n < length t"
    and "a \<in> set (actions G (state (t ! n)))" and "a \<notin> set (child_actions (t ! n))"
  shows "game_tree G (add_child t n (result G (state (t ! n)) a) a)"
proof -
  let ?s = "result G (state (t ! n)) a"
  let ?t' = "(t @ [Node ?s (Some n)])[n := (t ! n)\<lparr>children := children (t ! n) @ [length t],
                                          child_actions := child_actions (t ! n) @ [a]\<rparr>]"
  have eq: "add_child t n ?s a = ?t'" using assms(2) by (rule add_child_eq)
  have g: "distinct (child_actions (t ! i))"
      "set (child_actions (t ! i)) \<subseteq> set (actions G (state (t ! i)))" if "i < length t" for i
    using assms(1) that unfolding game_tree_iff by blast+
  have "distinct (child_actions (?t' ! i))
        \<and> set (child_actions (?t' ! i)) \<subseteq> set (actions G (state (?t' ! i)))"
    if i: "i < length ?t'" for i
  proof -
    consider "i = length t" | "i = n" | "i < length t" "i \<noteq> n" using i by force
    then show ?thesis
    proof cases
      case 1
      with assms(2) have "?t' ! i = Node ?s (Some n)" by (simp add: nth_append)
      then show ?thesis by (simp add: Node_def)
    next
      case 2
      with assms(2) have "?t' ! i = (t ! n)\<lparr>children := children (t ! n) @ [length t],
                                          child_actions := child_actions (t ! n) @ [a]\<rparr>"
        by simp
      with g [OF assms(2)] assms(3,4) show ?thesis by simp
    next
      case 3
      then have "?t' ! i = t ! i" by (simp add: nth_append)
      with g [OF 3(1)] show ?thesis by simp
    qed
  qed
  then show ?thesis unfolding eq game_tree_iff by blast
qed

lemma add_child_root_state:
  assumes "n < length t"
  shows "state (add_child t n s a ! 0) = state (t ! 0)"
proof -
  from assms have "0 < length t" by (cases t) simp_all
  then show ?thesis
    unfolding add_child_eq [OF assms]
    by (cases "n = 0") (simp_all add: nth_append)
qed

lemma add_child_root_children:
  assumes "n < length t"
  shows "children (add_child t n s a ! 0)
           = (if n = 0 then children (t ! 0) @ [length t] else children (t ! 0))"
proof -
  from assms have "0 < length t" by (cases t) simp_all
  then show ?thesis
    unfolding add_child_eq [OF assms]
    by (cases "n = 0") (simp_all add: nth_append)
qed

lemma add_child_length: "n < length t \<Longrightarrow> length (add_child t n s a) = length t + 1"
  by (simp add: add_child_eq)

lemma fully_explored_iff:
  "fully_explored G t n \<longleftrightarrow>
     length (child_actions (t ! n)) = length (actions G (state (t ! n)))"
  by (simp add: fully_explored_def)

lemma tree_policy_total:
  assumes game: "\<And>s. \<not> terminal_test G s \<Longrightarrow> actions G s \<noteq> [] \<and> distinct (actions G s)"
    and wf: "wf_tree t" and gt: "game_tree G t" and n: "n < length t"
  shows "\<exists>n'. n' < length t \<and> (n' = n \<or> children (t ! n) \<noteq> [])
           \<and> ((terminal_test G (state (t ! n')) \<and> tree_policy G t n = Some (Inr (t, n')))
              \<or> (\<not> terminal_test G (state (t ! n'))
                  \<and> (\<exists>a. a \<in> set (actions G (state (t ! n')))
                          \<and> a \<notin> set (child_actions (t ! n'))
                          \<and> tree_policy G t n =
                               Some (Inr (add_child t n' (result G (state (t ! n')) a) a,
                                          length t)))))"
  using n
proof (induction "length t - n" arbitrary: n rule: less_induct)
  case less
  note n = less.prems
  from wf n have wn: "wf_node t n" unfolding wf_tree_iff by blast
  from gt n have g: "distinct (child_actions (t ! n))"
    "set (child_actions (t ! n)) \<subseteq> set (actions G (state (t ! n)))"
    unfolding game_tree_iff by blast+
  show ?case
  proof (cases "terminal_test G (state (t ! n))")
    case True
    then have "tree_policy G t n = Some (Inr (t, n))"
      by (subst tree_policy.simps) simp
    with True n show ?thesis by blast
  next
    case False
    from game [OF False] have acts: "actions G (state (t ! n)) \<noteq> []"
      "distinct (actions G (state (t ! n)))" by blast+
    show ?thesis
    proof (cases "fully_explored G t n")
      case False
      then have "length (child_actions (t ! n)) \<noteq> length (actions G (state (t ! n)))"
        by (simp add: fully_explored_iff)
      with acts(2) g have "\<exists>a\<in>set (actions G (state (t ! n))). a \<notin> set (child_actions (t ! n))"
        by (intro untried_exists)
      from expand_loop_first [OF this] obtain a where
        a: "a \<in> set (actions G (state (t ! n)))" "a \<notin> set (child_actions (t ! n))"
        and loop: "expand_loop (actions G (state (t ! n))) (child_actions (t ! n)) = Some a"
        by auto
      have "tree_policy G t n = Some (expand G t n)"
        using \<open>\<not> terminal_test G (state (t ! n))\<close> False
        by (subst tree_policy.simps) simp
      with expand_eq [OF n loop]
      have "tree_policy G t n =
              Some (Inr (add_child t n (result G (state (t ! n)) a) a, length t))"
        by simp
      with a \<open>\<not> terminal_test G (state (t ! n))\<close> n show ?thesis by blast
    next
      case True
      then have len: "length (child_actions (t ! n)) = length (actions G (state (t ! n)))"
        by (simp add: fully_explored_iff)
      from wn have w: "1 \<le> visits (t ! n)"
        "length (children (t ! n)) = length (child_actions (t ! n))"
        "\<forall>c\<in>set (children (t ! n)). n < c \<and> c < length t \<and> parent (t ! c) = Some n"
        unfolding wf_node_iff by blast+
      from w(2) len acts(1) have ne: "children (t ! n) \<noteq> []" by auto
      have "\<forall>c\<in>set (children (t ! n)). wf_node t c" using w(3) wf unfolding wf_tree_iff by blast
      then have "\<forall>c\<in>set (children (t ! n)). 1 \<le> visits (t ! c)" unfolding wf_node_iff by blast
      with w(3) have "\<forall>c\<in>set (children (t ! n)). parent (t ! c) = Some n \<and> 1 \<le> visits (t ! c)"
        by blast
      from best_child_first [OF ne w(1) this, of 1] obtain c where
        bc: "best_child t n 1 = Inr c" by blast
      from best_child_member [OF bc] w(3) have c: "n < c" "c < length t" by blast+
      have step: "tree_policy G t n = tree_policy G t c"
        using \<open>\<not> terminal_test G (state (t ! n))\<close> True bc
        by (subst tree_policy.simps) simp
      from c have "length t - c < length t - n" by simp
      from less.hyps [OF this c(2)] obtain n' where
        "n' < length t"
        "(terminal_test G (state (t ! n')) \<and> tree_policy G t c = Some (Inr (t, n')))
              \<or> (\<not> terminal_test G (state (t ! n'))
                  \<and> (\<exists>a. a \<in> set (actions G (state (t ! n')))
                          \<and> a \<notin> set (child_actions (t ! n'))
                          \<and> tree_policy G t c =
                               Some (Inr (add_child t n' (result G (state (t ! n')) a) a,
                                          length t))))"
        by blast
      with ne show ?thesis unfolding step by blast
    qed
  qed
qed

lemma rollout_loop_total:
  assumes game: "\<And>s. \<not> terminal_test G s \<Longrightarrow> actions G s \<noteq> [] \<and> distinct (actions G s)"
    and meas: "\<And>s a. \<not> terminal_test G s \<Longrightarrow> a \<in> set (actions G s)
                 \<Longrightarrow> m (result G s a) < (m s :: nat)"
  shows "\<exists>s' pos'. rollout_loop G rng pos s = Some (Inr (s', pos'))"
proof (induction "m s" arbitrary: s pos rule: less_induct)
  case less
  show ?case
  proof (cases "terminal_test G s")
    case True
    then have "rollout_loop G rng pos s = Some (Inr (s, pos))"
      by (subst rollout_loop.simps) simp
    then show ?thesis by blast
  next
    case False
    let ?a = "actions G s ! (rng pos mod length (actions G s))"
    from game [OF False] have ne: "actions G s \<noteq> []" by blast
    then have "?a \<in> set (actions G s)" by simp
    from meas [OF False this] have "m (result G s ?a) < m s" .
    from less.hyps [OF this, of "pos + 1"] obtain s' pos' where
      "rollout_loop G rng (pos + 1) (result G s ?a) = Some (Inr (s', pos'))" by blast
    moreover have "rollout_loop G rng pos s = rollout_loop G rng (pos + 1) (result G s ?a)"
      using False ne by (subst rollout_loop.simps) (simp add: choice_def)
    ultimately show ?thesis by simp
  qed
qed

lemma rollout_policy_total:
  assumes "\<And>s. \<not> terminal_test G s \<Longrightarrow> actions G s \<noteq> [] \<and> distinct (actions G s)"
    and "\<And>s a. \<not> terminal_test G s \<Longrightarrow> a \<in> set (actions G s)
                 \<Longrightarrow> m (result G s a) < (m s :: nat)"
  shows "\<exists>v pos'. rollout_policy G rng pos t n p = Some (Inr (v, pos'))"
proof -
  from rollout_loop_total [OF assms, of rng pos "state (t ! n)"] obtain s' pos' where
    "rollout_loop G rng pos (state (t ! n)) = Some (Inr (s', pos'))" by blast
  then show ?thesis by (simp add: rollout_policy_def)
qed

lemma backprop_fields:
  assumes "parents_ordered t" and "leaf < length t"
  shows "\<exists>t'. backprop t (Some leaf) v = Some t' \<and> length t' = length t
           \<and> (\<forall>i<length t. state (t' ! i) = state (t ! i)
                 \<and> children (t' ! i) = children (t ! i)
                 \<and> child_actions (t' ! i) = child_actions (t ! i))"
proof -
  from backprop_walk [OF assms, of v] obtain t' where
    run: "backprop t (Some leaf) v = Some t'" "length t' = length t"
    and anc: "\<And>d i. ancestor t leaf d = Some i \<Longrightarrow>
                 t' ! i = (t ! i)\<lparr>visits := visits (t ! i) + 1,
                                   value := value (t ! i) + (- 1) ^ d * v\<rparr>"
    and oth: "\<And>i. i < length t \<Longrightarrow> (\<forall>d. ancestor t leaf d \<noteq> Some i) \<Longrightarrow> t' ! i = t ! i"
    by blast
  have "state (t' ! i) = state (t ! i) \<and> children (t' ! i) = children (t ! i)
          \<and> child_actions (t' ! i) = child_actions (t ! i)" if "i < length t" for i
  proof (cases "\<exists>d. ancestor t leaf d = Some i")
    case True
    then obtain d where "ancestor t leaf d = Some i" by blast
    from anc [OF this] show ?thesis by simp
  next
    case False
    then have "t' ! i = t ! i" using that by (intro oth) simp_all
    then show ?thesis by simp
  qed
  with run show ?thesis by blast
qed

lemma search_round:
  assumes game: "\<And>s. \<not> terminal_test G s \<Longrightarrow> actions G s \<noteq> [] \<and> distinct (actions G s)"
    and meas: "\<And>s a. \<not> terminal_test G s \<Longrightarrow> a \<in> set (actions G s)
                 \<Longrightarrow> m (result G s a) < (m s :: nat)"
    and nt: "\<not> terminal_test G st"
    and wf: "wf_tree t" and gt: "game_tree G t" and len: "0 < length t"
    and root: "state (t ! 0) = st"
  shows "\<exists>t1 leaf v pos1 t2.
           tree_policy G t 0 = Some (Inr (t1, leaf))
           \<and> rollout_policy G rng pos t1 leaf p = Some (Inr (v, pos1))
           \<and> backprop t1 (Some leaf) v = Some t2
           \<and> wf_tree t2 \<and> game_tree G t2 \<and> 0 < length t2 \<and> state (t2 ! 0) = st
           \<and> children (t2 ! 0) \<noteq> []"
proof -
  have "\<exists>t1 leaf. tree_policy G t 0 = Some (Inr (t1, leaf))
          \<and> wf_tree t1 \<and> game_tree G t1 \<and> leaf < length t1 \<and> state (t1 ! 0) = st
          \<and> children (t1 ! 0) \<noteq> []"
  proof -
    from tree_policy_total [OF game wf gt len] obtain n' where
      n': "n' < length t" and moved: "n' = 0 \<or> children (t ! 0) \<noteq> []"
      and alt: "(terminal_test G (state (t ! n')) \<and> tree_policy G t 0 = Some (Inr (t, n')))
              \<or> (\<not> terminal_test G (state (t ! n'))
                  \<and> (\<exists>a. a \<in> set (actions G (state (t ! n')))
                          \<and> a \<notin> set (child_actions (t ! n'))
                          \<and> tree_policy G t 0 =
                               Some (Inr (add_child t n' (result G (state (t ! n')) a) a,
                                          length t))))"
      by blast
    from alt show ?thesis
    proof
      assume a: "terminal_test G (state (t ! n')) \<and> tree_policy G t 0 = Some (Inr (t, n'))"
      have "n' \<noteq> 0"
      proof
        assume "n' = 0"
        with a root have "terminal_test G st" by simp
        with nt show False by simp
      qed
      with moved have "children (t ! 0) \<noteq> []" by blast
      with a wf gt n' root show ?thesis by blast
    next
      assume "\<not> terminal_test G (state (t ! n'))
                  \<and> (\<exists>a. a \<in> set (actions G (state (t ! n')))
                          \<and> a \<notin> set (child_actions (t ! n'))
                          \<and> tree_policy G t 0 =
                               Some (Inr (add_child t n' (result G (state (t ! n')) a) a,
                                          length t)))"
      then obtain a where a: "a \<in> set (actions G (state (t ! n')))"
        "a \<notin> set (child_actions (t ! n'))"
        and tp: "tree_policy G t 0 =
                   Some (Inr (add_child t n' (result G (state (t ! n')) a) a, length t))"
        by blast
      let ?t1 = "add_child t n' (result G (state (t ! n')) a) a"
      have "wf_tree ?t1" using wf n' by (rule add_child_wf)
      moreover have "game_tree G ?t1" using gt n' a by (rule add_child_game_tree)
      moreover have "length t < length ?t1" using n' by (simp add: add_child_length)
      moreover have "state (?t1 ! 0) = st" using n' root by (simp add: add_child_root_state)
      moreover have "children (?t1 ! 0) \<noteq> []"
        using moved n' by (auto simp: add_child_root_children)
      ultimately show ?thesis using tp by blast
    qed
  qed
  then obtain t1 leaf where tp: "tree_policy G t 0 = Some (Inr (t1, leaf))"
    and i1: "wf_tree t1" "game_tree G t1" "leaf < length t1" "state (t1 ! 0) = st"
      "children (t1 ! 0) \<noteq> []"
    by blast
  from rollout_policy_total [OF game meas, of rng pos t1 leaf p] obtain v pos1 where
    ro: "rollout_policy G rng pos t1 leaf p = Some (Inr (v, pos1))" by blast
  from backprop_fields [OF wf_tree_parents_ordered [OF i1(1)] i1(3), of v] obtain t2 where
    bp: "backprop t1 (Some leaf) v = Some t2" and l2: "length t2 = length t1"
    and same: "\<And>i. i < length t1 \<Longrightarrow> state (t2 ! i) = state (t1 ! i)
                 \<and> children (t2 ! i) = children (t1 ! i)
                 \<and> child_actions (t2 ! i) = child_actions (t1 ! i)"
    by blast
  from backprop_wf [OF bp i1(1)] have w2: "wf_tree t2" by blast
  from i1(3) have pos1: "0 < length t1" by (cases t1) simp_all
  have "game_tree G t2"
    unfolding game_tree_iff
  proof (intro allI impI)
    fix i assume "i < length t2"
    then have i: "i < length t1" using l2 by simp
    with i1(2) have "distinct (child_actions (t1 ! i))
        \<and> set (child_actions (t1 ! i)) \<subseteq> set (actions G (state (t1 ! i)))"
      unfolding game_tree_iff by blast
    with same [OF i] show "distinct (child_actions (t2 ! i))
        \<and> set (child_actions (t2 ! i)) \<subseteq> set (actions G (state (t2 ! i)))"
      by simp
  qed
  moreover have "0 < length t2" using pos1 l2 by simp
  moreover have "state (t2 ! 0) = st" using same [OF pos1] i1(4) by simp
  moreover have "children (t2 ! 0) \<noteq> []" using same [OF pos1] i1(5) by simp
  ultimately show ?thesis using tp ro bp w2 by blast
qed

lemma uct_loop_total:
  assumes game: "\<And>s. \<not> terminal_test G s \<Longrightarrow> actions G s \<noteq> [] \<and> distinct (actions G s)"
    and meas: "\<And>s a. \<not> terminal_test G s \<Longrightarrow> a \<in> set (actions G s)
                 \<Longrightarrow> m (result G s a) < (m s :: nat)"
    and nt: "\<not> terminal_test G st"
  shows "wf_tree t \<Longrightarrow> game_tree G t \<Longrightarrow> 0 < length t \<Longrightarrow> state (t ! 0) = st \<Longrightarrow>
         \<exists>t' pos'. uct_loop G rng budget st 0 t pos = Some (Inr (t', pos'))
           \<and> wf_tree t' \<and> game_tree G t' \<and> 0 < length t' \<and> state (t' ! 0) = st
           \<and> (0 < budget \<or> children (t ! 0) \<noteq> [] \<longrightarrow> children (t' ! 0) \<noteq> [])"
proof (induction budget arbitrary: t pos)
  case 0
  then show ?case by simp
next
  case (Suc budget)
  from search_round [OF game meas nt Suc.prems, of rng pos "player G st"]
  obtain t1 leaf v pos1 t2 where
    tp: "tree_policy G t 0 = Some (Inr (t1, leaf))"
    and ro: "rollout_policy G rng pos t1 leaf (player G st) = Some (Inr (v, pos1))"
    and bp: "backprop t1 (Some leaf) v = Some t2"
    and i2: "wf_tree t2" "game_tree G t2" "0 < length t2" "state (t2 ! 0) = st"
    and ch: "children (t2 ! 0) \<noteq> []"
    by blast
  from Suc.IH [OF i2, of pos1] ch obtain t' pos' where
    "uct_loop G rng budget st 0 t2 pos1 = Some (Inr (t', pos'))"
    "wf_tree t'" "game_tree G t'" "0 < length t'" "state (t' ! 0) = st" "children (t' ! 0) \<noteq> []"
    by blast
  moreover have "uct_loop G rng (Suc budget) st 0 t pos = uct_loop G rng budget st 0 t2 pos1"
    using tp ro bp by simp
  ultimately show ?case by simp
qed

lemma monte_carlo_uct_total:
  assumes game: "\<And>s. \<not> terminal_test G s \<Longrightarrow> actions G s \<noteq> [] \<and> distinct (actions G s)"
    and meas: "\<And>s a. \<not> terminal_test G s \<Longrightarrow> a \<in> set (actions G s)
                 \<Longrightarrow> m (result G s a) < (m s :: nat)"
    and nt: "\<not> terminal_test G st" and budget: "0 < budget"
  shows "\<exists>a t pos'. monte_carlo_uct G rng pos budget st = Some (Inr (a, t, pos'))
           \<and> a \<in> set (actions G st)"
proof -
  let ?t0 = "[Node st None] :: ('a, 'b) node list"
  have "wf_tree ?t0" by (simp add: wf_tree_iff wf_node_iff Node_def)
  moreover have "game_tree G ?t0" by (simp add: game_tree_iff Node_def)
  moreover have "0 < length ?t0" by simp
  moreover have "state (?t0 ! 0) = st" by (simp add: Node_def)
  ultimately obtain t pos' where
    loop: "uct_loop G rng budget st 0 ?t0 pos = Some (Inr (t, pos'))"
    and wf: "wf_tree t" and gt: "game_tree G t" and len: "0 < length t"
    and root: "state (t ! 0) = st" and ne: "children (t ! 0) \<noteq> []"
    using uct_loop_total [OF game meas nt, of ?t0 rng budget pos] budget by blast
  from wf len have w0: "wf_node t 0" unfolding wf_tree_iff by blast
  then have v0: "1 \<le> visits (t ! 0)" and d: "distinct (children (t ! 0))"
    and lens: "length (children (t ! 0)) = length (child_actions (t ! 0))"
    and ch: "\<forall>c\<in>set (children (t ! 0)). c < length t \<and> parent (t ! c) = Some 0"
    unfolding wf_node_iff by blast+
  have "\<forall>c\<in>set (children (t ! 0)). wf_node t c" using ch wf unfolding wf_tree_iff by blast
  then have "\<forall>c\<in>set (children (t ! 0)). 1 \<le> visits (t ! c)" unfolding wf_node_iff by blast
  with ch have "\<forall>c\<in>set (children (t ! 0)). parent (t ! c) = Some 0 \<and> 1 \<le> visits (t ! c)"
    by blast
  from best_child_first [OF ne v0 this, of 0] obtain pre c post where
    split: "children (t ! 0) = pre @ c # post" and bc: "best_child t 0 0 = Inr c"
    by blast
  from d split have "c \<notin> set pre" by simp
  then have ix: "index_of (children (t ! 0)) c = Inr (length pre)"
    unfolding split by (rule index_of_split)
  from split lens have lp: "length pre < length (child_actions (t ! 0))" by simp
  from nt have nt0: "\<not> terminal_test G (state (?t0 ! 0))" by (simp add: Node_def)
  have "monte_carlo_uct G rng pos budget st
          = Some (Inr (child_actions (t ! 0) ! length pre, t, pos'))"
    unfolding monte_carlo_uct_def Let_def using nt0 loop bc ix lp by simp
  moreover from gt len have "set (child_actions (t ! 0)) \<subseteq> set (actions G (state (t ! 0)))"
    unfolding game_tree_iff by blast
  with lp root have "child_actions (t ! 0) ! length pre \<in> set (actions G st)"
    using nth_mem by blast
  ultimately show ?thesis by blast
qed

lemma final_move_is_first_best:
  assumes "\<not> terminal_test G st"
    and "monte_carlo_uct G rng pos budget st = Some (Inr (a, t, pos'))"
  shows "first_best_average t a"
  unfolding first_best_average_def using assms by (rule final_move_first_best)



end
